theory Spec2Isabelle
  imports Main "HOL-Library.Word" "HOL-Library.Monad_Syntax"
begin

unbundle bit_operations_syntax

section \<open>Data model (main.c)\<close>

text \<open>
  Bytes are \<open>unsigned char\<close>, addresses, tags and FIFO stamps are \<open>unsigned int\<close>
  (32 bits, wrapping). The C \<open>int\<close> fields that only hold small values (the geometry,
  the flags and the counters) are modelled as \<open>int\<close>.
\<close>

type_synonym byte = "8 word"
type_synonym u32 = "32 word"

datatype OpType = LOAD | STORE | MODIFY | INST

text \<open>
  \<open>TraceOp\<close>: the field \<open>data\<close> of the C struct is the hex text of the bytes to
  store; the model carries the decoded bytes (the decoding loop of \<open>access_store\<close>
  turns two hex digits into one byte, so \<open>num_bytes\<close> is the length of this list).
\<close>

record TraceOp =
  op :: OpType
  address :: u32
  size_f :: int
  data :: "byte list"

record AccessResult =
  l1_hit :: int
  l1_miss :: int
  l1_evict :: int
  l2_hit :: int
  l2_miss :: int
  l2_evict :: int
  placed_in_l1 :: int
  placed_in_l2 :: int
  set_l1 :: int
  set_l2 :: int
  wrote_to_ram :: int

record CacheLine =
  valid :: int
  tag :: u32
  fifo_counter :: u32
  block :: "byte list"

record CacheSet =
  lines :: "CacheLine list"

text \<open>
  \<open>Cache\<close>: the C fields \<open>s\<close>, \<open>E\<close>, \<open>b\<close>, \<open>S\<close>, \<open>B\<close> are named
  \<open>cs\<close>, \<open>cE\<close>, \<open>cb\<close>, \<open>cS\<close>, \<open>cB\<close> here.
\<close>

record Cache =
  sets :: "CacheSet list"
  cs :: int
  cE :: int
  cb :: int
  cS :: u32
  cB :: u32
  fifo_time :: u32

text \<open>
  The result of \<open>find_line\<close>: \<open>Hit i\<close> is the return value \<open>i\<close> (the victim
  is not written), \<open>Miss v\<close> is the return value \<open>-1\<close> with \<open>*victim = v\<close>.
\<close>

datatype found = Hit int | Miss int

section \<open>Address decoding\<close>

text \<open>
  \<open>extract_address_parts\<close>; the result is \<open>(tag, set, offset)\<close>. A shift of a 32-bit
  operand by a negative count or by 32 or more, and \<open>1 << 31\<close> on \<open>int\<close>, have no
  defined result in C: the model returns \<open>None\<close> there.
\<close>

definition extract_address_parts :: "u32 \<Rightarrow> int \<Rightarrow> int \<Rightarrow> (u32 \<times> u32 \<times> u32) option" where
  "extract_address_parts addr s b =
     (if b < 0 \<or> 31 \<le> b \<or> s < 0 \<or> 31 \<le> s \<or> 32 \<le> b + s then None
      else
        let mask = push_bit (nat b) 1 - 1;
            offset = addr AND mask;
            mask2 = push_bit (nat s) 1 - 1;
            set_idx = drop_bit (nat b) addr AND mask2;
            tg = drop_bit (nat (b + s)) addr
        in Some (tg, set_idx, offset))"

section \<open>Line lookup and victim selection\<close>

text \<open>
  The \<open>for\<close> loop of \<open>find_line\<close> over \<open>i = 0 .. E - 1\<close>, on the lines of one set.
  Reading a line outside the array is \<open>None\<close>.
\<close>

function find_line_loop ::
  "CacheLine list \<Rightarrow> int \<Rightarrow> u32 \<Rightarrow> int \<Rightarrow> int \<Rightarrow> u32 \<Rightarrow> found option" where
  "find_line_loop ls E tg i oldest oldest_counter =
     (if i < E then
        (if i < 0 \<or> int (length ls) \<le> i then None
         else
           let line = ls ! nat i in
           if valid line \<noteq> 0 \<and> tag line = tg then Some (Hit i)
           else if valid line = 0 then Some (Miss i)
           else if fifo_counter line < oldest_counter
             then find_line_loop ls E tg (i + 1) i (fifo_counter line)
             else find_line_loop ls E tg (i + 1) oldest oldest_counter)
      else Some (Miss oldest))"
  by pat_completeness auto
termination
  by (relation "measure (\<lambda>(ls, E, tg, i, oldest, oc). nat (E - i))") auto

declare find_line_loop.simps [simp del]

definition find_line :: "Cache \<Rightarrow> u32 \<Rightarrow> u32 \<Rightarrow> found option" where
  "find_line cache set_index tg =
     (if length (sets cache) \<le> unat set_index then None
      else
        let ls = lines (sets cache ! unat set_index) in
        if ls = [] then None
        else find_line_loop ls (cE cache) tg 0 0 (fifo_counter (ls ! 0)))"

section \<open>Construction\<close>

text \<open>
  \<open>create_cache\<close>. \<open>malloc\<close> leaves the bytes of a block indeterminate: they are
  the parameter \<open>junk\<close> (set, line, byte position). Allocation is taken to succeed.
  \<open>1 << s\<close> and \<open>1 << b\<close> are \<open>int\<close> shifts, undefined outside \<open>0 .. 30\<close>.
  For a negative \<open>E\<close> the inner loop does not run and the set has no line.
\<close>

definition create_cache :: "(nat \<Rightarrow> nat \<Rightarrow> nat \<Rightarrow> byte) \<Rightarrow> int \<Rightarrow> int \<Rightarrow> int \<Rightarrow> Cache option" where
  "create_cache junk s E b =
     (if s < 0 \<or> 31 \<le> s \<or> b < 0 \<or> 31 \<le> b then None
      else Some
        \<lparr>sets = map (\<lambda>i. \<lparr>lines = map (\<lambda>j. \<lparr>valid = 0, tag = 0, fifo_counter = 0,
                                              block = map (junk i j) [0 ..< 2 ^ nat b]\<rparr>)
                                      [0 ..< nat E]\<rparr>)
                    [0 ..< 2 ^ nat s],
         cs = s, cE = E, cb = b,
         cS = push_bit (nat s) 1, cB = push_bit (nat b) 1,
         fifo_time = 0\<rparr>)"

section \<open>Backing store\<close>

text \<open>
  The backing store is the file \<open>RAM.dat\<close>, opened \<open>rb+\<close>: a list of bytes.
  \<open>fread_buf file pos buf n\<close> is \<open>fseek\<close> to \<open>pos\<close> and \<open>fread (buf, 1, n)\<close>:
  the bytes the file still has from \<open>pos\<close> on, at most \<open>n\<close>, land at the front of
  \<open>buf\<close>, and the rest of \<open>buf\<close> keeps its content. \<open>fwrite_buf file pos buf n\<close> is
  \<open>fseek\<close> to \<open>pos\<close> and \<open>fwrite (buf, 1, n)\<close>; a position past the end of the file
  leaves a gap of zero bytes. \<open>memcpy dst off src n\<close> is
  \<open>memcpy (dst + off, src, n)\<close>. An access outside a buffer is \<open>None\<close>.
  File positions are numbers: \<open>long\<close> is taken to hold every \<open>unsigned int\<close>, and
  the calls are taken not to fail for another reason.
\<close>

definition fread_buf :: "byte list \<Rightarrow> nat \<Rightarrow> byte list \<Rightarrow> nat \<Rightarrow> byte list option" where
  "fread_buf file pos buf n =
     (let got = take n (drop pos file)
      in if length buf < length got then None else Some (got @ drop (length got) buf))"

definition fwrite_buf :: "byte list \<Rightarrow> nat \<Rightarrow> byte list \<Rightarrow> nat \<Rightarrow> byte list option" where
  "fwrite_buf file pos buf n =
     (if length buf < n then None
      else Some (take pos file @ replicate (pos - length file) 0 @ take n buf @ drop (pos + n) file))"

definition memcpy :: "byte list \<Rightarrow> nat \<Rightarrow> byte list \<Rightarrow> nat \<Rightarrow> byte list option" where
  "memcpy dst off src n =
     (if length dst < off + n \<or> length src < n then None
      else Some (take off dst @ take n src @ drop (off + n) dst))"

definition read_block_from_ram :: "byte list \<Rightarrow> u32 \<Rightarrow> byte list \<Rightarrow> u32 \<Rightarrow> byte list option" where
  "read_block_from_ram ram_fp addr blk block_size =
     fread_buf ram_fp (unat (addr AND NOT (block_size - 1))) blk (unat block_size)"

text \<open>\<open>write_block_to_ram\<close>, with its 64-byte \<open>temp_block\<close> on the stack.\<close>

definition write_block_to_ram :: "byte list \<Rightarrow> u32 \<Rightarrow> byte list \<Rightarrow> nat \<Rightarrow> u32 \<Rightarrow> byte list option" where
  "write_block_to_ram ram_fp addr dat num_bytes block_size = do {
     let temp_block = replicate 64 0;
     let block_start = addr AND NOT (block_size - 1);
     let offset = addr - block_start;
     temp_block \<leftarrow> fread_buf ram_fp (unat block_start) temp_block (unat block_size);
     temp_block \<leftarrow> memcpy temp_block (unat offset) dat num_bytes;
     fwrite_buf ram_fp (unat block_start) temp_block (unat block_size)
   }"

section \<open>Access to one line\<close>

text \<open>
  \<open>line_at cache set i\<close> reads \<open>cache->sets[set].lines[i]\<close>, \<open>put_line\<close> writes it;
  an index outside either array is \<open>None\<close>.
\<close>

definition line_at :: "Cache \<Rightarrow> u32 \<Rightarrow> int \<Rightarrow> CacheLine option" where
  "line_at cache set_index i =
     (if length (sets cache) \<le> unat set_index then None
      else
        let ls = lines (sets cache ! unat set_index)
        in if i < 0 \<or> int (length ls) \<le> i then None else Some (ls ! nat i))"

definition put_line :: "Cache \<Rightarrow> u32 \<Rightarrow> int \<Rightarrow> CacheLine \<Rightarrow> Cache" where
  "put_line cache set_index i ln =
     cache\<lparr>sets := (sets cache)[unat set_index :=
        \<lparr>lines = (lines (sets cache ! unat set_index))[nat i := ln]\<rparr>]\<rparr>"

text \<open>
  The fill of a victim line, as written in \<open>access_load\<close> (twice) and \<open>access_store\<close>
  (twice): \<open>valid = 1; tag = tg; fifo_counter = cache->fifo_time++;
  read_block_from_ram (ram_fp, address, block, cache->B)\<close>.
\<close>

definition fill_line :: "Cache \<Rightarrow> u32 \<Rightarrow> int \<Rightarrow> u32 \<Rightarrow> byte list \<Rightarrow> u32 \<Rightarrow> Cache option" where
  "fill_line cache set_index victim tg ram_fp addr = do {
     ln \<leftarrow> line_at cache set_index victim;
     blk \<leftarrow> read_block_from_ram ram_fp addr (block ln) (cB cache);
     Some ((put_line cache set_index victim
              \<lparr>valid = 1, tag = tg, fifo_counter = fifo_time cache, block = blk\<rparr>)
           \<lparr>fifo_time := fifo_time cache + 1\<rparr>)
   }"

text \<open>
  The update of a line by a store:
  \<open>memcpy (cache->sets[set].lines[i].block + offset, data_bytes, num_bytes)\<close>.
\<close>

definition store_line :: "Cache \<Rightarrow> u32 \<Rightarrow> int \<Rightarrow> u32 \<Rightarrow> byte list \<Rightarrow> nat \<Rightarrow> Cache option" where
  "store_line cache set_index i offset data_bytes num_bytes = do {
     ln \<leftarrow> line_at cache set_index i;
     blk \<leftarrow> memcpy (block ln) (unat offset) data_bytes num_bytes;
     Some (put_line cache set_index i (ln\<lparr>block := blk\<rparr>))
   }"

section \<open>The access functions\<close>

text \<open>
  The two caches, the six counters and the backing store that \<open>access_load\<close>,
  \<open>access_store\<close> and \<open>access_modify\<close> receive by pointer.
\<close>

record Ctx =
  L1 :: Cache
  L2 :: Cache
  L1_hit :: int
  L1_miss :: int
  L1_evict :: int
  L2_hit :: int
  L2_miss :: int
  L2_evict :: int
  ram_fp :: "byte list"

definition access_load :: "Ctx \<Rightarrow> u32 \<Rightarrow> AccessResult \<Rightarrow> (Ctx \<times> AccessResult) option" where
  "access_load c addr result = do {
     (l1_tag, l1_set, l1_off) \<leftarrow> extract_address_parts addr (cs (L1 c)) (cb (L1 c));
     f1 \<leftarrow> find_line (L1 c) l1_set l1_tag;
     let result = result\<lparr>set_l1 := sint l1_set\<rparr>;
     (case f1 of
        Hit l1_idx \<Rightarrow> Some (c\<lparr>L1_hit := L1_hit c + 1\<rparr>, result\<lparr>l1_hit := 1\<rparr>)
      | Miss l1_victim \<Rightarrow> do {
          let c = c\<lparr>L1_miss := L1_miss c + 1\<rparr>;
          let result = result\<lparr>l1_miss := 1\<rparr>;
          (l2_tag, l2_set, l2_off) \<leftarrow> extract_address_parts addr (cs (L2 c)) (cb (L2 c));
          f2 \<leftarrow> find_line (L2 c) l2_set l2_tag;
          let result = result\<lparr>set_l2 := sint l2_set\<rparr>;
          (c, result) \<leftarrow>
            (case f2 of
               Hit l2_idx \<Rightarrow> Some (c\<lparr>L2_hit := L2_hit c + 1\<rparr>, result\<lparr>l2_hit := 1\<rparr>)
             | Miss l2_victim \<Rightarrow> do {
                 let c = c\<lparr>L2_miss := L2_miss c + 1\<rparr>;
                 let result = result\<lparr>l2_miss := 1\<rparr>;
                 old \<leftarrow> line_at (L2 c) l2_set l2_victim;
                 let (c, result) =
                   (if valid old \<noteq> 0
                    then (c\<lparr>L2_evict := L2_evict c + 1\<rparr>, result\<lparr>l2_evict := 1\<rparr>)
                    else (c, result));
                 l2' \<leftarrow> fill_line (L2 c) l2_set l2_victim l2_tag (ram_fp c) addr;
                 Some (c\<lparr>L2 := l2'\<rparr>, result\<lparr>placed_in_l2 := 1\<rparr>)
               });
          old \<leftarrow> line_at (L1 c) l1_set l1_victim;
          let c = (if valid old \<noteq> 0 then c\<lparr>L1_evict := L1_evict c + 1\<rparr> else c);
          let result = result\<lparr>l1_evict := 1\<rparr>;
          l1' \<leftarrow> fill_line (L1 c) l1_set l1_victim l1_tag (ram_fp c) addr;
          Some (c\<lparr>L1 := l1'\<rparr>, result\<lparr>placed_in_l1 := 1\<rparr>)
        })
   }"

text \<open>
  The L2 part of \<open>access_store\<close>, which the source writes out twice with the same
  statements (after an L1 hit and after an L1 miss): decode for L2, look the line up,
  on a hit copy the data into the line, on a miss fill the victim from the backing
  store and then copy the data into it.
\<close>

definition store_l2 :: "Ctx \<Rightarrow> u32 \<Rightarrow> byte list \<Rightarrow> nat \<Rightarrow> AccessResult \<Rightarrow> (Ctx \<times> AccessResult) option" where
  "store_l2 c addr data_bytes num_bytes result = do {
     (l2_tag, l2_set, l2_off) \<leftarrow> extract_address_parts addr (cs (L2 c)) (cb (L2 c));
     f2 \<leftarrow> find_line (L2 c) l2_set l2_tag;
     let result = result\<lparr>set_l2 := sint l2_set\<rparr>;
     let l2_offset = addr AND (cB (L2 c) - 1);
     (case f2 of
        Hit l2_idx \<Rightarrow> do {
          let c = c\<lparr>L2_hit := L2_hit c + 1\<rparr>;
          let result = result\<lparr>l2_hit := 1\<rparr>;
          l2' \<leftarrow> store_line (L2 c) l2_set l2_idx l2_offset data_bytes num_bytes;
          Some (c\<lparr>L2 := l2'\<rparr>, result)
        }
      | Miss l2_victim \<Rightarrow> do {
          let c = c\<lparr>L2_miss := L2_miss c + 1\<rparr>;
          let result = result\<lparr>l2_miss := 1\<rparr>;
          old \<leftarrow> line_at (L2 c) l2_set l2_victim;
          let (c, result) =
            (if valid old \<noteq> 0
             then (c\<lparr>L2_evict := L2_evict c + 1\<rparr>, result\<lparr>l2_evict := 1\<rparr>)
             else (c, result));
          l2' \<leftarrow> fill_line (L2 c) l2_set l2_victim l2_tag (ram_fp c) addr;
          let result = result\<lparr>placed_in_l2 := 1\<rparr>;
          l2'' \<leftarrow> store_line l2' l2_set l2_victim l2_offset data_bytes num_bytes;
          Some (c\<lparr>L2 := l2''\<rparr>, result)
        })
   }"

text \<open>
  \<open>access_store\<close>. \<open>data_bytes\<close> is the 32-byte array, zero beyond the decoded bytes;
  more than 32 decoded bytes would overrun it.
\<close>

definition access_store :: "Ctx \<Rightarrow> u32 \<Rightarrow> TraceOp \<Rightarrow> AccessResult \<Rightarrow> (Ctx \<times> AccessResult) option" where
  "access_store c addr trace_op result = do {
     (l1_tag, l1_set, l1_off) \<leftarrow> extract_address_parts addr (cs (L1 c)) (cb (L1 c));
     f1 \<leftarrow> find_line (L1 c) l1_set l1_tag;
     let result = result\<lparr>set_l1 := sint l1_set\<rparr>;
     let num_bytes = length (data trace_op);
     data_bytes \<leftarrow> (if 32 < num_bytes then None
                    else Some (data trace_op @ replicate (32 - num_bytes) 0));
     let l1_offset = addr AND (cB (L1 c) - 1);
     (case f1 of
        Hit l1_idx \<Rightarrow> do {
          let c = c\<lparr>L1_hit := L1_hit c + 1\<rparr>;
          let result = result\<lparr>l1_hit := 1\<rparr>;
          l1' \<leftarrow> store_line (L1 c) l1_set l1_idx l1_offset data_bytes num_bytes;
          let c = c\<lparr>L1 := l1'\<rparr>;
          (c, result) \<leftarrow> store_l2 c addr data_bytes num_bytes result;
          ram' \<leftarrow> write_block_to_ram (ram_fp c) addr data_bytes num_bytes (cB (L1 c));
          Some (c\<lparr>ram_fp := ram'\<rparr>, result\<lparr>wrote_to_ram := 1\<rparr>)
        }
      | Miss l1_victim \<Rightarrow> do {
          let c = c\<lparr>L1_miss := L1_miss c + 1\<rparr>;
          let result = result\<lparr>l1_miss := 1\<rparr>;
          ram' \<leftarrow> write_block_to_ram (ram_fp c) addr data_bytes num_bytes (cB (L1 c));
          let c = c\<lparr>ram_fp := ram'\<rparr>;
          let result = result\<lparr>wrote_to_ram := 1\<rparr>;
          store_l2 c addr data_bytes num_bytes result
        })
   }"

text \<open>\<open>memset (res, 0, sizeof (AccessResult))\<close>.\<close>

definition zero_result :: AccessResult where
  "zero_result =
     \<lparr>l1_hit = 0, l1_miss = 0, l1_evict = 0, l2_hit = 0, l2_miss = 0, l2_evict = 0,
      placed_in_l1 = 0, placed_in_l2 = 0, set_l1 = 0, set_l2 = 0, wrote_to_ram = 0\<rparr>"

definition access_modify ::
  "Ctx \<Rightarrow> u32 \<Rightarrow> TraceOp \<Rightarrow> AccessResult \<Rightarrow> AccessResult \<Rightarrow> (Ctx \<times> AccessResult \<times> AccessResult) option" where
  "access_modify c addr trace_op load_res store_res = do {
     let load_res = zero_result;
     (c, load_res) \<leftarrow> access_load c addr load_res;
     let store_res = zero_result;
     (c, store_res) \<leftarrow> access_store c addr trace_op store_res;
     Some (c, load_res, store_res)
   }"

section \<open>The replay loop of main\<close>

text \<open>
  The variables of \<open>main\<close> that the loop over the trace reads and writes; the names
  of the source carry the prefix \<open>m_\<close> here.
\<close>

record Machine =
  m_L1D :: Cache
  m_L1I :: Cache
  m_L2 :: Cache
  m_L1D_hit :: int
  m_L1D_miss :: int
  m_L1D_evict :: int
  m_L1I_hit :: int
  m_L1I_miss :: int
  m_L1I_evict :: int
  m_L2_hit :: int
  m_L2_miss :: int
  m_L2_evict :: int
  m_ram_fp :: "byte list"
  m_load_res :: AccessResult
  m_store_res :: AccessResult

text \<open>
  The arguments of a call with \<open>L1D\<close> and its counters, and of a call with \<open>L1I\<close>
  and its counters, and the write-back of what the call changed through its pointers.
\<close>

definition data_ctx :: "Machine \<Rightarrow> Ctx" where
  "data_ctx m =
     \<lparr>L1 = m_L1D m, L2 = m_L2 m,
      L1_hit = m_L1D_hit m, L1_miss = m_L1D_miss m, L1_evict = m_L1D_evict m,
      L2_hit = m_L2_hit m, L2_miss = m_L2_miss m, L2_evict = m_L2_evict m,
      ram_fp = m_ram_fp m\<rparr>"

definition inst_ctx :: "Machine \<Rightarrow> Ctx" where
  "inst_ctx m =
     \<lparr>L1 = m_L1I m, L2 = m_L2 m,
      L1_hit = m_L1I_hit m, L1_miss = m_L1I_miss m, L1_evict = m_L1I_evict m,
      L2_hit = m_L2_hit m, L2_miss = m_L2_miss m, L2_evict = m_L2_evict m,
      ram_fp = m_ram_fp m\<rparr>"

definition from_data_ctx :: "Machine \<Rightarrow> Ctx \<Rightarrow> Machine" where
  "from_data_ctx m c =
     m\<lparr>m_L1D := L1 c, m_L2 := L2 c,
       m_L1D_hit := L1_hit c, m_L1D_miss := L1_miss c, m_L1D_evict := L1_evict c,
       m_L2_hit := L2_hit c, m_L2_miss := L2_miss c, m_L2_evict := L2_evict c,
       m_ram_fp := ram_fp c\<rparr>"

definition from_inst_ctx :: "Machine \<Rightarrow> Ctx \<Rightarrow> Machine" where
  "from_inst_ctx m c =
     m\<lparr>m_L1I := L1 c, m_L2 := L2 c,
       m_L1I_hit := L1_hit c, m_L1I_miss := L1_miss c, m_L1I_evict := L1_evict c,
       m_L2_hit := L2_hit c, m_L2_miss := L2_miss c, m_L2_evict := L2_evict c,
       m_ram_fp := ram_fp c\<rparr>"

text \<open>
  One turn of the loop for a parsed trace line (the log lines it prints are left out):
  both result records are cleared, then the operation is dispatched.
\<close>

definition step :: "Machine \<Rightarrow> TraceOp \<Rightarrow> Machine option" where
  "step m0 t =
     (let m = m0\<lparr>m_load_res := zero_result, m_store_res := zero_result\<rparr> in
      if op t = LOAD then do {
        (c, r) \<leftarrow> access_load (data_ctx m) (address t) (m_load_res m);
        Some ((from_data_ctx m c)\<lparr>m_load_res := r\<rparr>)
      }
      else if op t = INST then do {
        (c, r) \<leftarrow> access_load (inst_ctx m) (address t) (m_load_res m);
        Some ((from_inst_ctx m c)\<lparr>m_load_res := r\<rparr>)
      }
      else if op t = STORE then do {
        (c, r) \<leftarrow> access_store (data_ctx m) (address t) t (m_store_res m);
        Some ((from_data_ctx m c)\<lparr>m_store_res := r\<rparr>)
      }
      else do {
        (c, lr, sr) \<leftarrow> access_modify (data_ctx m) (address t) t (m_load_res m) (m_store_res m);
        Some ((from_data_ctx m c)\<lparr>m_load_res := lr, m_store_res := sr\<rparr>)
      })"

fun run :: "Machine \<Rightarrow> TraceOp list \<Rightarrow> Machine option" where
  "run m [] = Some m"
| "run m (t # ts) = (case step m t of None \<Rightarrow> None | Some m' \<Rightarrow> run m' ts)"

text \<open>
  The start of \<open>main\<close>: the six geometry arguments are refused when one is negative
  (each defaults to \<open>-1\<close>), the three caches are created, the counters start at 0 and
  \<open>ram\<close> is the content of \<open>RAM.dat\<close>.
\<close>

definition args_accepted :: "int \<Rightarrow> int \<Rightarrow> int \<Rightarrow> int \<Rightarrow> int \<Rightarrow> int \<Rightarrow> bool" where
  "args_accepted L1s L1E L1b L2s L2E L2b \<longleftrightarrow>
     \<not> (L1s < 0 \<or> L1E < 0 \<or> L1b < 0 \<or> L2s < 0 \<or> L2E < 0 \<or> L2b < 0)"

definition main_init ::
  "(nat \<Rightarrow> nat \<Rightarrow> nat \<Rightarrow> byte) \<Rightarrow> (nat \<Rightarrow> nat \<Rightarrow> nat \<Rightarrow> byte) \<Rightarrow> (nat \<Rightarrow> nat \<Rightarrow> nat \<Rightarrow> byte) \<Rightarrow>
   int \<Rightarrow> int \<Rightarrow> int \<Rightarrow> int \<Rightarrow> int \<Rightarrow> int \<Rightarrow> byte list \<Rightarrow> Machine option" where
  "main_init jD jI j2 L1s L1E L1b L2s L2E L2b ram =
     (if \<not> args_accepted L1s L1E L1b L2s L2E L2b then None
      else do {
        l1d \<leftarrow> create_cache jD L1s L1E L1b;
        l1i \<leftarrow> create_cache jI L1s L1E L1b;
        l2 \<leftarrow> create_cache j2 L2s L2E L2b;
        Some \<lparr>m_L1D = l1d, m_L1I = l1i, m_L2 = l2,
              m_L1D_hit = 0, m_L1D_miss = 0, m_L1D_evict = 0,
              m_L1I_hit = 0, m_L1I_miss = 0, m_L1I_evict = 0,
              m_L2_hit = 0, m_L2_miss = 0, m_L2_evict = 0,
              m_ram_fp = ram, m_load_res = zero_result, m_store_res = zero_result\<rparr>
      })"

section \<open>Specification predicates\<close>

text \<open>
  \<open>scan_clear ls tg i k\<close>: the lines \<open>i .. k - 1\<close> of a set are all valid and none of
  them carries the tag \<open>tg\<close>, so the scan of \<open>find_line\<close> passes over them.
\<close>

definition scan_clear :: "CacheLine list \<Rightarrow> u32 \<Rightarrow> int \<Rightarrow> int \<Rightarrow> bool" where
  "scan_clear ls tg i k \<longleftrightarrow>
     (\<forall>j. i \<le> j \<and> j < k \<longrightarrow> valid (ls ! nat j) \<noteq> 0 \<and> tag (ls ! nat j) \<noteq> tg)"

text \<open>
  \<open>is_oldest ls n v\<close>: among the lines \<open>0 .. n - 1\<close>, line \<open>v\<close> has the smallest
  \<open>fifo_counter\<close>, and it is the first line with that value.
\<close>

definition is_oldest :: "CacheLine list \<Rightarrow> int \<Rightarrow> int \<Rightarrow> bool" where
  "is_oldest ls n v \<longleftrightarrow>
     (\<forall>j. 0 \<le> j \<and> j < n \<longrightarrow> fifo_counter (ls ! nat v) \<le> fifo_counter (ls ! nat j)) \<and>
     (\<forall>j. 0 \<le> j \<and> j < v \<longrightarrow> fifo_counter (ls ! nat v) < fifo_counter (ls ! nat j))"

text \<open>What a run of the loop of \<open>find_line\<close> from index \<open>i\<close> on may return.\<close>

definition resolved :: "CacheLine list \<Rightarrow> int \<Rightarrow> u32 \<Rightarrow> int \<Rightarrow> found \<Rightarrow> bool" where
  "resolved ls E tg i r =
     (case r of
        Hit k \<Rightarrow> i \<le> k \<and> k < E \<and> valid (ls ! nat k) \<noteq> 0 \<and> tag (ls ! nat k) = tg \<and>
                 scan_clear ls tg i k
      | Miss v \<Rightarrow> 0 \<le> v \<and> v < E \<and>
                 (i \<le> v \<and> valid (ls ! nat v) = 0 \<and> scan_clear ls tg i v
                  \<or> scan_clear ls tg i E \<and> is_oldest ls E v))"

section \<open>Example states\<close>



text \<open>A backing store of 32 bytes, byte \<open>i\<close> holding the value \<open>i\<close>.\<close>

definition ram32 :: "byte list" where
  "ram32 = map of_nat [0 ..< 32]"

text \<open>
  A small machine as \<open>main\<close> sets it up for the arguments
  \<open>-L1s 1 -L1E 2 -L1b 2 -L2s 1 -L2E 2 -L2b 3\<close> over the 32-byte store \<open>ram32\<close>,
  with every allocated block holding zeros.
\<close>

definition fresh_line :: "nat \<Rightarrow> CacheLine" where
  "fresh_line n = \<lparr>valid = 0, tag = 0, fifo_counter = 0, block = replicate n 0\<rparr>"

definition demo_L1 :: Cache where
  "demo_L1 =
     \<lparr>sets = replicate 2 \<lparr>lines = replicate 2 (fresh_line 4)\<rparr>,
      cs = 1, cE = 2, cb = 2, cS = 2, cB = 4, fifo_time = 0\<rparr>"

definition demo_L2 :: Cache where
  "demo_L2 =
     \<lparr>sets = replicate 2 \<lparr>lines = replicate 2 (fresh_line 8)\<rparr>,
      cs = 1, cE = 2, cb = 3, cS = 2, cB = 8, fifo_time = 0\<rparr>"

definition demo_machine :: Machine where
  "demo_machine =
     \<lparr>m_L1D = demo_L1, m_L1I = demo_L1, m_L2 = demo_L2,
      m_L1D_hit = 0, m_L1D_miss = 0, m_L1D_evict = 0,
      m_L1I_hit = 0, m_L1I_miss = 0, m_L1I_evict = 0,
      m_L2_hit = 0, m_L2_miss = 0, m_L2_evict = 0,
      m_ram_fp = ram32, m_load_res = zero_result, m_store_res = zero_result\<rparr>"

definition demo_ctx :: Ctx where
  "demo_ctx = data_ctx demo_machine"

text \<open>Trace lines \<open>L a, 1\<close>, \<open>I a, 1\<close>, \<open>S a, n, bytes\<close> and \<open>M a, n, bytes\<close>.\<close>

definition load_op :: "u32 \<Rightarrow> TraceOp" where
  "load_op a = \<lparr>op = LOAD, address = a, size_f = 1, data = []\<rparr>"

definition inst_op :: "u32 \<Rightarrow> TraceOp" where
  "inst_op a = \<lparr>op = INST, address = a, size_f = 1, data = []\<rparr>"

definition store_op :: "u32 \<Rightarrow> byte list \<Rightarrow> TraceOp" where
  "store_op a bs = \<lparr>op = STORE, address = a, size_f = int (length bs), data = bs\<rparr>"

definition modify_op :: "u32 \<Rightarrow> byte list \<Rightarrow> TraceOp" where
  "modify_op a bs = \<lparr>op = MODIFY, address = a, size_f = int (length bs), data = bs\<rparr>"

section \<open>Invariants of the caches\<close>

text \<open>
  \<open>no_gap\<close>: in a set, no invalid line stands in front of a valid one.
  \<open>tags_distinct\<close>: no two valid lines of a set carry the same tag.
  \<open>tag_unique\<close>: the latter, for every set of a cache.
\<close>

definition no_gap :: "CacheLine list \<Rightarrow> bool" where
  "no_gap ls \<longleftrightarrow>
     (\<forall>i j. i < j \<and> j < length ls \<and> valid (ls ! j) \<noteq> 0 \<longrightarrow> valid (ls ! i) \<noteq> 0)"

definition tags_distinct :: "CacheLine list \<Rightarrow> bool" where
  "tags_distinct ls \<longleftrightarrow>
     (\<forall>i j. i < length ls \<and> j < length ls \<and> valid (ls ! i) \<noteq> 0 \<and> valid (ls ! j) \<noteq> 0 \<and>
            tag (ls ! i) = tag (ls ! j) \<longrightarrow> i = j)"

definition tag_unique :: "Cache \<Rightarrow> bool" where
  "tag_unique c \<longleftrightarrow> (\<forall>k < length (sets c). tags_distinct (lines (sets c ! k)))"

text \<open>
  \<open>shaped\<close>: the arrays have the sizes \<open>create_cache\<close> gave them: \<open>2 ^ s\<close> sets of
  \<open>E\<close> lines, every block \<open>B = 2 ^ b\<close> bytes long.
\<close>

definition shaped :: "Cache \<Rightarrow> bool" where
  "shaped c \<longleftrightarrow>
     length (sets c) = 2 ^ nat (cs c) \<and> cB c = push_bit (nat (cb c)) 1 \<and>
     (\<forall>k < length (sets c).
        length (lines (sets c ! k)) = nat (cE c) \<and>
        (\<forall>ln \<in> set (lines (sets c ! k)). length (block ln) = unat (cB c)))"

definition cache_inv :: "Cache \<Rightarrow> bool" where
  "cache_inv c \<longleftrightarrow>
     shaped c \<and>
     (\<forall>k < length (sets c). no_gap (lines (sets c ! k)) \<and> tags_distinct (lines (sets c ! k)))"

definition machine_inv :: "Machine \<Rightarrow> bool" where
  "machine_inv m \<longleftrightarrow> cache_inv (m_L1D m) \<and> cache_inv (m_L1I m) \<and> cache_inv (m_L2 m)"

text \<open>
  The L1 cache that \<open>main\<close> passes for a trace line: \<open>L1I\<close> for an instruction
  fetch, \<open>L1D\<close> for a load, a store and a modify.
\<close>

definition l1_for :: "Machine \<Rightarrow> TraceOp \<Rightarrow> Cache" where
  "l1_for m t = (if op t = INST then m_L1I m else m_L1D m)"

text \<open>
  \<open>only_line ls v tg\<close>: line \<open>v\<close> of the set is valid with tag \<open>tg\<close>, and it is the
  only line of the set that is.
\<close>

definition only_line :: "CacheLine list \<Rightarrow> nat \<Rightarrow> u32 \<Rightarrow> bool" where
  "only_line ls v tg \<longleftrightarrow>
     v < length ls \<and> valid (ls ! v) \<noteq> 0 \<and> tag (ls ! v) = tg \<and>
     (\<forall>j < length ls. valid (ls ! j) \<noteq> 0 \<and> tag (ls ! j) = tg \<longrightarrow> j = v)"

text \<open>The trace of the examples: three loads into set 0 of L1D, then the other kinds.\<close>

definition demo_trace :: "TraceOp list" where
  "demo_trace =
     [load_op 0, load_op 8, load_op 16, inst_op 0, store_op 8 [0xAA], modify_op 24 [0xBB]]"

section \<open>Consistency with the backing store\<close>

text \<open>
  \<open>line_base c k ln\<close> is the address of the first byte that line \<open>ln\<close> of set \<open>k\<close>
  covers: the tag, the set index and a zero block offset put together. A line is
  consistent with the backing store when it is invalid, or when the block it covers
  lies within the store and its bytes are the bytes of the store there.
\<close>

definition line_base :: "Cache \<Rightarrow> nat \<Rightarrow> CacheLine \<Rightarrow> nat" where
  "line_base c k ln = (unat (tag ln) * 2 ^ nat (cs c) + k) * 2 ^ nat (cb c)"

definition line_coherent :: "Cache \<Rightarrow> byte list \<Rightarrow> nat \<Rightarrow> CacheLine \<Rightarrow> bool" where
  "line_coherent c ram k ln \<longleftrightarrow>
     (valid ln \<noteq> 0 \<longrightarrow>
        line_base c k ln + unat (cB c) \<le> length ram \<and>
        block ln = take (unat (cB c)) (drop (line_base c k ln) ram))"

definition coherent :: "Cache \<Rightarrow> byte list \<Rightarrow> bool" where
  "coherent c ram \<longleftrightarrow>
     (\<forall>k \<in> {..< length (sets c)}. \<forall>ln \<in> set (lines (sets c ! k)). line_coherent c ram k ln)"

text \<open>The statement of claim C9 for one state of the replay.\<close>

definition all_lines_coherent :: "Machine \<Rightarrow> bool" where
  "all_lines_coherent m \<longleftrightarrow>
     coherent (m_L1D m) (m_ram_fp m) \<and> coherent (m_L1I m) (m_ram_fp m) \<and>
     coherent (m_L2 m) (m_ram_fp m)"

text \<open>
  \<open>op_fits b1 b2 N t\<close>: for the block-offset widths \<open>b1\<close> of L1 and \<open>b2\<close> of L2 and
  a backing store of \<open>N\<close> bytes, the L1 block and the L2 block that hold the address of
  \<open>t\<close> lie within the store, and the bytes of a STORE or MODIFY end within the L1 block
  of its address.
\<close>

definition op_fits :: "int \<Rightarrow> int \<Rightarrow> nat \<Rightarrow> TraceOp \<Rightarrow> bool" where
  "op_fits b1 b2 N t \<longleftrightarrow>
     (unat (address t) div 2 ^ nat b1 + 1) * 2 ^ nat b1 \<le> N \<and>
     (unat (address t) div 2 ^ nat b2 + 1) * 2 ^ nat b2 \<le> N \<and>
     (op t = STORE \<or> op t = MODIFY \<longrightarrow>
        unat (address t) mod 2 ^ nat b1 + length (data t) \<le> 2 ^ nat b1)"

text \<open>
  Two stores of the same length that differ at most within \<open>[A, A + n)\<close>, and a store
  that holds the first \<open>n\<close> bytes of \<open>db\<close> at \<open>A\<close>.
\<close>

definition agree_outside :: "byte list \<Rightarrow> byte list \<Rightarrow> nat \<Rightarrow> nat \<Rightarrow> bool" where
  "agree_outside ram ram' A n \<longleftrightarrow>
     length ram' = length ram \<and>
     (\<forall>p < length ram. p < A \<or> A + n \<le> p \<longrightarrow> ram' ! p = ram ! p)"

definition written :: "byte list \<Rightarrow> nat \<Rightarrow> byte list \<Rightarrow> nat \<Rightarrow> bool" where
  "written ram' A db n \<longleftrightarrow> A + n \<le> length ram' \<and> (\<forall>k < n. ram' ! (A + k) = db ! k)"

text \<open>
  \<open>misses_L1I m t\<close>: the lookup of the address of \<open>t\<close> in L1I misses in state \<open>m\<close>.
  \<open>stores_miss_L1I m ts\<close>: along the replay of \<open>ts\<close> from \<open>m\<close>, this holds of every
  STORE and MODIFY at its turn, so no store writes to bytes that a line of the
  instruction cache holds.
\<close>

definition misses_L1I :: "Machine \<Rightarrow> TraceOp \<Rightarrow> bool" where
  "misses_L1I m t =
     (case extract_address_parts (address t) (cs (m_L1I m)) (cb (m_L1I m)) of
        None \<Rightarrow> False
      | Some (tg, si, off) \<Rightarrow>
          (case find_line (m_L1I m) si tg of
             None \<Rightarrow> False
           | Some (Hit i) \<Rightarrow> False
           | Some (Miss v) \<Rightarrow> True))"

fun stores_miss_L1I :: "Machine \<Rightarrow> TraceOp list \<Rightarrow> bool" where
  "stores_miss_L1I m [] = True"
| "stores_miss_L1I m (t # ts) =
     ((op t = STORE \<or> op t = MODIFY \<longrightarrow> misses_L1I m t) \<and>
      (case step m t of None \<Rightarrow> True | Some m' \<Rightarrow> stores_miss_L1I m' ts))"

text \<open>
  The invariant of the replay behind claim C9, for block-offset widths \<open>b1\<close>, \<open>b2\<close>
  and a backing store of \<open>N\<close> bytes.
\<close>

definition store_inv :: "int \<Rightarrow> int \<Rightarrow> nat \<Rightarrow> Machine \<Rightarrow> bool" where
  "store_inv b1 b2 N m \<longleftrightarrow>
     machine_inv m \<and> length (m_ram_fp m) = N \<and>
     cb (m_L1D m) = b1 \<and> cb (m_L1I m) = b1 \<and> cb (m_L2 m) = b2 \<and>
     coherent (m_L1D m) (m_ram_fp m) \<and> coherent (m_L2 m) (m_ram_fp m)"

section \<open>Inputs on which the replay runs to its end\<close>

text \<open>
  \<open>geometry_ok c\<close>: the shifts of the address decoder are defined for the widths of
  \<open>c\<close>, and every set has at least one line. \<open>op_safe b1 b2 t\<close>: the bytes of a STORE
  or MODIFY fit the 32-byte array \<open>data_bytes\<close> and end within the L1 block and within
  the L2 block of the address.
\<close>

definition geometry_ok :: "Cache \<Rightarrow> bool" where
  "geometry_ok c \<longleftrightarrow>
     0 \<le> cs c \<and> 0 \<le> cb c \<and> cs c < 31 \<and> cb c < 31 \<and> cb c + cs c < 32 \<and> 0 < cE c"

definition op_safe :: "int \<Rightarrow> int \<Rightarrow> TraceOp \<Rightarrow> bool" where
  "op_safe b1 b2 t \<longleftrightarrow>
     (op t = STORE \<or> op t = MODIFY \<longrightarrow>
        length (data t) \<le> 32 \<and>
        unat (address t) mod 2 ^ nat b1 + length (data t) \<le> 2 ^ nat b1 \<and>
        unat (address t) mod 2 ^ nat b2 + length (data t) \<le> 2 ^ nat b2)"

definition same_geom :: "Cache \<Rightarrow> Cache \<Rightarrow> bool" where
  "same_geom c c' \<longleftrightarrow> cs c' = cs c \<and> cb c' = cb c \<and> cE c' = cE c \<and> cB c' = cB c"

definition replay_ok :: "int \<Rightarrow> int \<Rightarrow> Machine \<Rightarrow> bool" where
  "replay_ok b1 b2 m \<longleftrightarrow>
     machine_inv m \<and>
     geometry_ok (m_L1D m) \<and> geometry_ok (m_L1I m) \<and> geometry_ok (m_L2 m) \<and>
     cb (m_L1D m) = b1 \<and> cb (m_L2 m) = b2 \<and> b1 \<le> 6"

section \<open>The line resolver\<close>

lemma scan_clear_step:
  "valid (ls ! nat i) \<noteq> 0 \<Longrightarrow> tag (ls ! nat i) \<noteq> tg \<Longrightarrow> scan_clear ls tg (i + 1) k
    \<Longrightarrow> scan_clear ls tg i k"
  unfolding scan_clear_def
  by (metis add.commute nless_le zless_imp_add1_zle)

lemma resolved_step:
  "valid (ls ! nat i) \<noteq> 0 \<Longrightarrow> tag (ls ! nat i) \<noteq> tg \<Longrightarrow> resolved ls E tg (i + 1) r
    \<Longrightarrow> resolved ls E tg i r"
  by (cases r) (auto simp: resolved_def intro: scan_clear_step)

lemma find_line_loop_spec:
  "0 \<le> i \<Longrightarrow> i \<le> E \<Longrightarrow> E = int (length ls) \<Longrightarrow> 0 < E \<Longrightarrow>
   0 \<le> oldest \<Longrightarrow> oldest < E \<Longrightarrow> oc = fifo_counter (ls ! nat oldest) \<Longrightarrow>
   (\<forall>j. 0 \<le> j \<and> j < i \<longrightarrow> oc \<le> fifo_counter (ls ! nat j)) \<Longrightarrow>
   (\<forall>j. 0 \<le> j \<and> j < oldest \<longrightarrow> oc < fifo_counter (ls ! nat j)) \<Longrightarrow>
   \<exists>r. find_line_loop ls E tg i oldest oc = Some r \<and> resolved ls E tg i r"
proof (induction ls E tg i oldest oc rule: find_line_loop.induct)
  case (1 ls E tg i oldest oc)
  show ?case
  proof (cases "i < E")
    case False
    with "1.prems" have "i = E" by simp
    with "1.prems" show ?thesis
      by (subst find_line_loop.simps) (simp add: resolved_def scan_clear_def is_oldest_def)
  next
    case lt: True
    then have inb: "\<not> (i < 0 \<or> int (length ls) \<le> i)" using "1.prems" by simp
    let ?l = "ls ! nat i"
    consider (hit) "valid ?l \<noteq> 0 \<and> tag ?l = tg" | (inv) "valid ?l = 0"
      | (lower) "valid ?l \<noteq> 0" "tag ?l \<noteq> tg" "fifo_counter ?l < oc"
      | (keep) "valid ?l \<noteq> 0" "tag ?l \<noteq> tg" "\<not> fifo_counter ?l < oc"
      by blast
    then show ?thesis
    proof cases
      case hit
      with lt inb "1.prems" show ?thesis
        by (subst find_line_loop.simps) (simp add: resolved_def scan_clear_def)
    next
      case inv
      with lt inb "1.prems" show ?thesis
        by (subst find_line_loop.simps) (simp add: resolved_def scan_clear_def)
    next
      case lower
      have eq: "find_line_loop ls E tg i oldest oc = find_line_loop ls E tg (i + 1) i (fifo_counter ?l)"
        using lt inb lower by (subst find_line_loop.simps) simp
      have a: "\<forall>j. 0 \<le> j \<and> j < i + 1 \<longrightarrow> fifo_counter ?l \<le> fifo_counter (ls ! nat j)"
      proof (intro allI impI)
        fix j assume "0 \<le> j \<and> j < i + 1"
        then have "j = i \<or> (0 \<le> j \<and> j < i)" by auto
        then show "fifo_counter ?l \<le> fifo_counter (ls ! nat j)"
          using "1.prems"(8) lower(3) by (auto intro: order.trans less_imp_le)
      qed
      have b: "\<forall>j. 0 \<le> j \<and> j < i \<longrightarrow> fifo_counter ?l < fifo_counter (ls ! nat j)"
        using "1.prems"(8) lower(3) by (auto intro: less_le_trans)
      have "\<exists>r. find_line_loop ls E tg (i + 1) i (fifo_counter ?l) = Some r \<and> resolved ls E tg (i + 1) r"
        using "1.IH"(1)[OF lt inb refl _ _ lower(3)] lower lt "1.prems" a b by simp
      then show ?thesis
        unfolding eq using lower resolved_step by blast
    next
      case keep
      have eq: "find_line_loop ls E tg i oldest oc = find_line_loop ls E tg (i + 1) oldest oc"
        using lt inb keep by (subst find_line_loop.simps) simp
      have a: "\<forall>j. 0 \<le> j \<and> j < i + 1 \<longrightarrow> oc \<le> fifo_counter (ls ! nat j)"
      proof (intro allI impI)
        fix j assume "0 \<le> j \<and> j < i + 1"
        then have "j = i \<or> (0 \<le> j \<and> j < i)" by auto
        then show "oc \<le> fifo_counter (ls ! nat j)"
          using "1.prems"(8) keep(3) by auto
      qed
      have "\<exists>r. find_line_loop ls E tg (i + 1) oldest oc = Some r \<and> resolved ls E tg (i + 1) r"
        using "1.IH"(2)[OF lt inb refl _ _ keep(3)] keep lt "1.prems" a by simp
      then show ?thesis
        unfolding eq using keep resolved_step by blast
    qed
  qed
qed


lemma find_line_spec:
  assumes "unat set_index < length (sets cache)"
    and "ls = lines (sets cache ! unat set_index)"
    and "cE cache = int (length ls)"
    and "ls \<noteq> []"
  shows "\<exists>r. find_line cache set_index tg = Some r \<and> resolved ls (cE cache) tg 0 r"
proof -
  have "\<exists>r. find_line_loop ls (cE cache) tg 0 0 (fifo_counter (ls ! 0)) = Some r \<and>
          resolved ls (cE cache) tg 0 r"
    using assms by (intro find_line_loop_spec) auto
  moreover have "find_line cache set_index tg =
      find_line_loop ls (cE cache) tg 0 0 (fifo_counter (ls ! 0))"
    using assms by (simp add: find_line_def Let_def)
  ultimately show ?thesis by simp
qed




section \<open>The backing store\<close>

lemma fread_buf_length: "fread_buf file pos buf n = Some buf' \<Longrightarrow> length buf' = length buf"
  by (auto simp: fread_buf_def Let_def split: if_splits)

lemma fread_buf_nth:
  "fread_buf file pos buf n = Some buf' \<Longrightarrow> q < n \<Longrightarrow> pos + q < length file \<Longrightarrow> buf' ! q = file ! (pos + q)"
  by (auto simp: fread_buf_def Let_def nth_append split: if_splits)

lemma fread_buf_full:
  "pos + n \<le> length file \<Longrightarrow> length buf = n \<Longrightarrow> fread_buf file pos buf n = Some (take n (drop pos file))"
  by (simp add: fread_buf_def Let_def)

lemma memcpy_length: "memcpy dst off src n = Some dst' \<Longrightarrow> length dst' = length dst"
  by (auto simp: memcpy_def split: if_splits)

lemma memcpy_nth_outside:
  "memcpy dst off src n = Some dst' \<Longrightarrow> q < off \<or> off + n \<le> q \<Longrightarrow> q < length dst \<Longrightarrow> dst' ! q = dst ! q"
  by (auto simp: memcpy_def nth_append min_def split: if_splits)

lemma memcpy_nth_inside:
  "memcpy dst off src n = Some dst' \<Longrightarrow> off \<le> q \<Longrightarrow> q < off + n \<Longrightarrow> dst' ! q = src ! (q - off)"
  by (auto simp: memcpy_def nth_append min_def split: if_splits)

lemma unat_offset: "unat ((addr :: u32) - (addr AND NOT m)) = unat addr - unat (addr AND NOT m)"
  by (simp add: unat_sub word_and_le2)

lemma write_block_to_ram_Some:
  assumes "write_block_to_ram ram addr dat n bsz = Some ram'"
  obtains t1 t2 where
    "fread_buf ram (unat (addr AND NOT (bsz - 1))) (replicate 64 0) (unat bsz) = Some t1"
    "memcpy t1 (unat addr - unat (addr AND NOT (bsz - 1))) dat n = Some t2"
    "fwrite_buf ram (unat (addr AND NOT (bsz - 1))) t2 (unat bsz) = Some ram'"
  using assms
  by (auto simp: write_block_to_ram_def Let_def unat_offset split: Option.bind_splits)

lemma write_block_to_ram_bound:
  "write_block_to_ram ram addr dat n bsz = Some ram' \<Longrightarrow> unat bsz \<le> 64"
  by (erule write_block_to_ram_Some)
     (auto simp: fwrite_buf_def dest!: fread_buf_length memcpy_length split: if_splits)

lemma write_block_to_ram_frame:
  assumes w: "write_block_to_ram ram addr dat n bsz = Some ram'"
  shows "length ram \<le> length ram' \<and>
    (\<forall>p < length ram. p < unat addr \<or> unat addr + n \<le> p \<longrightarrow> ram' ! p = ram ! p)"
proof -
  define bs where "bs = unat (addr AND NOT (bsz - 1))"
  define B where "B = unat bsz"
  from w obtain t1 t2 where
    r: "fread_buf ram bs (replicate 64 0) B = Some t1" and
    m: "memcpy t1 (unat addr - bs) dat n = Some t2" and
    f: "fwrite_buf ram bs t2 B = Some ram'"
    unfolding bs_def B_def by (rule write_block_to_ram_Some)
  have le: "bs \<le> unat addr" unfolding bs_def by (simp add: word_and_le2 word_le_nat_alt[symmetric])
  have l1: "length t1 = 64" using fread_buf_length[OF r] by simp
  have l2: "length t2 = 64" using memcpy_length[OF m] l1 by simp
  have B64: "B \<le> 64" using f l2 by (auto simp: fwrite_buf_def split: if_splits)
  have ram': "ram' = take bs ram @ replicate (bs - length ram) 0 @ take B t2 @ drop (bs + B) ram"
    using f by (auto simp: fwrite_buf_def split: if_splits)
  have len: "length ram \<le> length ram'"
    unfolding ram' using l2 B64 by (simp add: min_def) arith
  have nth: "ram' ! p = ram ! p" if p: "p < length ram" and out: "p < unat addr \<or> unat addr + n \<le> p" for p
  proof -
    consider (before) "p < bs" | (inside) "bs \<le> p" "p < bs + B" | (after) "bs + B \<le> p" by linarith
    then show ?thesis
    proof cases
      case before
      then show ?thesis unfolding ram' using p by (simp add: nth_append)
    next
      case inside
      then have bl: "bs \<le> length ram" using p by simp
      let ?q = "p - bs"
      have q: "?q < B" using inside by simp
      have "ram' ! p = (take B t2) ! ?q"
        unfolding ram' using inside bl p l2 B64 q by (simp add: nth_append min_def)
      also have "\<dots> = t2 ! ?q" using q by simp
      also have "\<dots> = t1 ! ?q"
        using out inside le q l1 B64 by (intro memcpy_nth_outside[OF m]) auto
      also have "\<dots> = ram ! (bs + ?q)"
        using q p inside by (intro fread_buf_nth[OF r]) auto
      finally show ?thesis using inside by simp
    next
      case after
      then have bl: "bs \<le> length ram" using p by simp
      have nq: "\<not> p - bs < B" using after by simp
      show ?thesis unfolding ram' using after bl p l2 B64 nq
        by (simp add: nth_append min_def)
    qed
  qed
  from len nth show ?thesis by blast
qed


lemma write_block_to_ram_written:
  assumes w: "write_block_to_ram ram addr dat n bsz = Some ram'"
    and fit: "unat addr - unat (addr AND NOT (bsz - 1)) + n \<le> unat bsz"
  shows "unat addr + n \<le> length ram' \<and> (\<forall>k < n. ram' ! (unat addr + k) = dat ! k)"
proof -
  define bs where "bs = unat (addr AND NOT (bsz - 1))"
  define B where "B = unat bsz"
  from w obtain t1 t2 where
    r: "fread_buf ram bs (replicate 64 0) B = Some t1" and
    m: "memcpy t1 (unat addr - bs) dat n = Some t2" and
    f: "fwrite_buf ram bs t2 B = Some ram'"
    unfolding bs_def B_def by (rule write_block_to_ram_Some)
  have le: "bs \<le> unat addr" unfolding bs_def by (simp add: word_and_le2 word_le_nat_alt[symmetric])
  have fit': "unat addr - bs + n \<le> B" using fit by (simp add: bs_def B_def)
  have l1: "length t1 = 64" using fread_buf_length[OF r] by simp
  have l2: "length t2 = 64" using memcpy_length[OF m] l1 by simp
  have B64: "B \<le> 64" using f l2 by (auto simp: fwrite_buf_def split: if_splits)
  have ram': "ram' = (take bs ram @ replicate (bs - length ram) 0) @ take B t2 @ drop (bs + B) ram"
    using f by (auto simp: fwrite_buf_def split: if_splits)
  have lpre: "length (take bs ram @ replicate (bs - length ram) 0) = bs" by (simp add: min_def)
  have len: "unat addr + n \<le> length ram'"
    unfolding ram' using l2 B64 fit' le by (simp add: min_def) arith
  have nth: "ram' ! (unat addr + k) = dat ! k" if k: "k < n" for k
  proof -
    let ?q = "unat addr - bs + k"
    have q: "?q < B" using k fit' by simp
    have "ram' ! (unat addr + k) = (take B t2 @ drop (bs + B) ram) ! ?q"
      unfolding ram' using le by (subst nth_append) (simp only: lpre, simp)
    also have "\<dots> = t2 ! ?q" using q l2 B64 by (simp add: nth_append)
    also have "\<dots> = dat ! k" using memcpy_nth_inside[OF m, of ?q] k by simp
    finally show ?thesis .
  qed
  from len nth show ?thesis by blast
qed

lemma write_block_to_ram_length:
  assumes w: "write_block_to_ram ram addr dat n bsz = Some ram'"
    and inr: "unat (addr AND NOT (bsz - 1)) + unat bsz \<le> length ram"
  shows "length ram' = length ram"
proof -
  define bs where "bs = unat (addr AND NOT (bsz - 1))"
  define B where "B = unat bsz"
  from w obtain t1 t2 where
    r: "fread_buf ram bs (replicate 64 0) B = Some t1" and
    m: "memcpy t1 (unat addr - bs) dat n = Some t2" and
    f: "fwrite_buf ram bs t2 B = Some ram'"
    unfolding bs_def B_def by (rule write_block_to_ram_Some)
  have l2: "length t2 = 64" using memcpy_length[OF m] fread_buf_length[OF r] by simp
  have B64: "B \<le> 64" using f l2 by (auto simp: fwrite_buf_def split: if_splits)
  have ram': "ram' = take bs ram @ replicate (bs - length ram) 0 @ take B t2 @ drop (bs + B) ram"
    using f by (auto simp: fwrite_buf_def split: if_splits)
  show ?thesis unfolding ram' using l2 B64 inr unfolding bs_def B_def by (simp add: min_def) arith
qed

lemma write_block_to_ram_total:
  assumes "unat bsz \<le> 64" "unat addr - unat (addr AND NOT (bsz - 1)) + n \<le> unat bsz" "n \<le> length dat"
  shows "\<exists>ram'. write_block_to_ram ram addr dat n bsz = Some ram'"
proof -
  obtain t1 where r: "fread_buf ram (unat (addr AND NOT (bsz - 1))) (replicate 64 0) (unat bsz) = Some t1"
    using assms(1) by (auto simp: fread_buf_def Let_def)
  have l1: "length t1 = 64" using fread_buf_length[OF r] by simp
  obtain t2 where m: "memcpy t1 (unat addr - unat (addr AND NOT (bsz - 1))) dat n = Some t2"
    using assms l1 by (auto simp: memcpy_def)
  have l2: "length t2 = 64" using memcpy_length[OF m] l1 by simp
  obtain r' where f: "fwrite_buf ram (unat (addr AND NOT (bsz - 1))) t2 (unat bsz) = Some r'"
    using assms(1) l2 by (auto simp: fwrite_buf_def)
  show ?thesis
    using r m f by (simp add: write_block_to_ram_def unat_offset)
qed

section \<open>Words as numbers\<close>

lemma pow2_word_minus1: "push_bit b (1::u32) - 1 = mask b"
  by (simp add: mask_eq_decr_exp push_bit_of_1)

lemma unat_pow2: "b < 32 \<Longrightarrow> unat (push_bit b (1::u32)) = 2 ^ b"
proof -
  assume "b < 32"
  then have "(2::nat) ^ b < 2 ^ 32" by (intro power_strict_increasing) auto
  then have "take_bit 32 ((2::nat) ^ b) = 2 ^ b" by (intro take_bit_nat_eq_self) simp
  moreover have "unat (push_bit b (1::u32)) = take_bit LENGTH(32) (push_bit b (unat (1::u32)))"
    by (rule unsigned_push_bit_eq)
  ultimately show ?thesis
    by (simp add: push_bit_of_1)
qed

lemma unat_and_mask: "unat ((a::u32) AND mask b) = unat a mod 2 ^ b"
proof -
  have "unat (a AND mask b) = unat (take_bit b a)" by (simp only: take_bit_eq_mask)
  also have "\<dots> = take_bit b (unat a)" by (rule unsigned_take_bit_eq)
  also have "\<dots> = unat a mod 2 ^ b" by (rule take_bit_eq_mod)
  finally show ?thesis .
qed

lemma unat_drop_bit: "unat (drop_bit b (a::u32)) = unat a div 2 ^ b"
proof -
  have "unat (drop_bit b a) = drop_bit b (unat a)" by (rule unat_drop_bit_eq)
  also have "\<dots> = unat a div 2 ^ b" by (rule drop_bit_eq_div)
  finally show ?thesis .
qed

lemma and_not_mask_eq: "(a::u32) AND NOT (mask b) = a - (a AND mask b)"
proof -
  have "NOT a AND (a AND mask b) = 0"
    by (rule bit_eqI) (simp add: bit_simps)
  then have "a - (a AND mask b) = a AND NOT (a AND mask b)"
    by (rule disjunctive_diff_eq_and_not)
  also have "\<dots> = a AND NOT (mask b)"
    by (rule bit_eqI) (auto simp: bit_simps)
  finally show ?thesis by simp
qed

lemma unat_and_not_mask: "unat ((a::u32) AND NOT (mask b)) = unat a - unat a mod 2 ^ b"
proof -
  have "a AND mask b \<le> a" by (simp add: word_and_le2)
  then show ?thesis
    by (simp only: and_not_mask_eq unat_sub unat_and_mask)
qed

section \<open>Writes to the backing store\<close>

text \<open>
  Claim C7. A call of \<open>write_block_to_ram\<close> that runs within its buffers leaves every
  byte of the backing store outside the written range \<open>[address, address + num_bytes)\<close>
  as it was, the other bytes of the containing block included; the store never gets
  shorter.
\<close>

theorem write_block_to_ram_preserves_outside:
  assumes "write_block_to_ram ram addr dat num_bytes block_size = Some ram'"
  shows "length ram \<le> length ram' \<and>
    (\<forall>p < length ram. p < unat addr \<or> unat addr + num_bytes \<le> p \<longrightarrow> ram' ! p = ram ! p)"
  using assms by (rule write_block_to_ram_frame)

theorem write_block_to_ram_preserves_outside_witness:
  "write_block_to_ram ram32 0x12 [0xAA, 0xBB] 2 16 =
     Some (map of_nat [0 ..< 18] @ [0xAA, 0xBB] @ map of_nat [20 ..< 32]) \<and>
   (map of_nat [0 ..< 18] @ [0xAA, 0xBB] @ map of_nat [20 ..< 32]) ! 17 = ram32 ! 17 \<and>
   (map of_nat [0 ..< 18] @ [0xAA, 0xBB] @ map of_nat [20 ..< 32]) ! 20 = ram32 ! 20"
proof -
  have w: "write_block_to_ram ram32 0x12 [0xAA, 0xBB] 2 16 =
     Some (map of_nat [0 ..< 18] @ [0xAA, 0xBB] @ map of_nat [20 ..< 32])"
    by code_simp
  have "length ram32 = 32" by (simp add: ram32_def)
  with write_block_to_ram_preserves_outside [OF w] w show ?thesis
    by simp
qed

text \<open>
  Claim C10. \<open>write_block_to_ram\<close> stays within its 64-byte \<open>temp_block\<close> only when
  the block size is at most 64: with a larger block size the \<open>fwrite\<close> of a whole block
  reads past the end of the buffer. The argument check of \<open>main\<close> accepts a block-offset
  width \<open>b > 6\<close>, and \<open>create_cache\<close> then builds a cache whose block size makes
  every backing-store write leave the buffer.
\<close>

theorem temp_block_overrun:
  "(write_block_to_ram ram addr dat num_bytes block_size \<noteq> None \<longrightarrow> unat block_size \<le> 64) \<and>
   (0 \<le> s \<and> s < 31 \<and> 0 \<le> E \<and> 6 < b \<and> b < 31 \<longrightarrow>
      args_accepted s E b s E b \<and>
      (\<exists>c. create_cache junk s E b = Some c \<and> 64 < unat (cB c) \<and>
           write_block_to_ram ram addr dat num_bytes (cB c) = None))"
proof (intro conjI impI)
  show "unat block_size \<le> 64" if "write_block_to_ram ram addr dat num_bytes block_size \<noteq> None"
    using that write_block_to_ram_bound by blast
next
  assume g: "0 \<le> s \<and> s < 31 \<and> 0 \<le> E \<and> 6 < b \<and> b < 31"
  then show "args_accepted s E b s E b" by (simp add: args_accepted_def)
  from g obtain c where c: "create_cache junk s E b = Some c" "cB c = push_bit (nat b) 1"
    by (auto simp: create_cache_def)
  have "nat b < 32" "7 \<le> nat b" using g by auto
  then have "(2::nat) ^ 7 \<le> 2 ^ nat b" by (intro power_increasing) auto
  moreover have "unat (cB c) = 2 ^ nat b"
    using \<open>nat b < 32\<close> c(2) unat_pow2 [of "nat b"] by (simp add: push_bit_of_1)
  ultimately have big: "64 < unat (cB c)" by simp
  then have "write_block_to_ram ram addr dat num_bytes (cB c) = None"
    using write_block_to_ram_bound [of ram addr dat num_bytes "cB c"] by fastforce
  with c big show "\<exists>c. create_cache junk s E b = Some c \<and> 64 < unat (cB c) \<and>
           write_block_to_ram ram addr dat num_bytes (cB c) = None" by blast
qed

theorem temp_block_overrun_witness:
  "args_accepted 1 2 7 1 2 7 \<and>
   map_option cB (create_cache (\<lambda>_ _ _. 0) 1 2 7) = Some 128 \<and>
   write_block_to_ram ram32 0 [1] 1 128 = None \<and>
   write_block_to_ram ram32 0 [1] 1 16 \<noteq> None"
proof -
  have a: "(0::int) \<le> 1 \<and> (1::int) < 31 \<and> (0::int) \<le> 2 \<and> (6::int) < 7 \<and> (7::int) < 31" by simp
  have b: "map_option cB (create_cache (\<lambda>_ _ _. 0) 1 2 7) = Some 128"
    by (simp add: create_cache_def)
  have c: "write_block_to_ram ram32 0 [1] 1 16 \<noteq> None" by code_simp
  from temp_block_overrun [of ram32 0 "[1]" 1 128 1 2 7 "\<lambda>_ _ _. 0"] a b c
  show ?thesis
    by (auto simp: create_cache_def)
qed

section \<open>The paths through the access functions\<close>

lemma line_at_SomeD:
  "line_at c si i = Some ln \<Longrightarrow>
     unat si < length (sets c) \<and> 0 \<le> i \<and> nat i < length (lines (sets c ! unat si)) \<and>
     ln = lines (sets c ! unat si) ! nat i"
  by (auto simp: line_at_def Let_def split: if_splits)

lemma put_line_fields [simp]:
  "cs (put_line c si i ln) = cs c" "cE (put_line c si i ln) = cE c"
  "cb (put_line c si i ln) = cb c" "cS (put_line c si i ln) = cS c"
  "cB (put_line c si i ln) = cB c" "fifo_time (put_line c si i ln) = fifo_time c"
  "length (sets (put_line c si i ln)) = length (sets c)"
  by (simp_all add: put_line_def)

lemma lines_put_line:
  "k < length (sets c) \<Longrightarrow>
     lines (sets (put_line c si i ln) ! k) =
       (if k = unat si then (lines (sets c ! k))[nat i := ln] else lines (sets c ! k))"
  by (simp add: put_line_def nth_list_update)

lemma fill_line_SomeD:
  assumes "fill_line c si v tg ram addr = Some c'"
  obtains old blk where "line_at c si v = Some old"
    "read_block_from_ram ram addr (block old) (cB c) = Some blk"
    "c' = (put_line c si v \<lparr>valid = 1, tag = tg, fifo_counter = fifo_time c, block = blk\<rparr>)
            \<lparr>fifo_time := fifo_time c + 1\<rparr>"
  using assms by (auto simp: fill_line_def split: Option.bind_splits)

lemma store_line_SomeD:
  assumes "store_line c si i off db n = Some c'"
  obtains old blk where "line_at c si i = Some old"
    "memcpy (block old) (unat off) db n = Some blk"
    "c' = put_line c si i (old\<lparr>block := blk\<rparr>)"
  using assms by (auto simp: store_line_def split: Option.bind_splits)

lemma store_l2_cases:
  assumes "store_l2 c addr db n r = Some (c', r')"
  obtains (hit) tg si off i l2' where
      "extract_address_parts addr (cs (L2 c)) (cb (L2 c)) = Some (tg, si, off)"
      "find_line (L2 c) si tg = Some (Hit i)"
      "store_line (L2 c) si i (addr AND (cB (L2 c) - 1)) db n = Some l2'"
      "c' = c\<lparr>L2 := l2', L2_hit := L2_hit c + 1\<rparr>"
      "r' = r\<lparr>set_l2 := sint si, l2_hit := 1\<rparr>"
    | (miss) tg si off v old l2' l2'' where
      "extract_address_parts addr (cs (L2 c)) (cb (L2 c)) = Some (tg, si, off)"
      "find_line (L2 c) si tg = Some (Miss v)"
      "line_at (L2 c) si v = Some old"
      "fill_line (L2 c) si v tg (ram_fp c) addr = Some l2'"
      "store_line l2' si v (addr AND (cB (L2 c) - 1)) db n = Some l2''"
      "c' = c\<lparr>L2 := l2'', L2_miss := L2_miss c + 1,
               L2_evict := (if valid old \<noteq> 0 then L2_evict c + 1 else L2_evict c)\<rparr>"
      "r' = r\<lparr>set_l2 := sint si, l2_miss := 1, placed_in_l2 := 1,
               l2_evict := (if valid old \<noteq> 0 then 1 else l2_evict r)\<rparr>"
  using assms unfolding store_l2_def
  by (auto simp: Let_def split: Option.bind_splits found.splits if_splits)


lemma access_store_cases:
  assumes "access_store c addr t r = Some (c', r')"
  obtains (hit) tg si off i l1' c2 r2 ram' where
      "extract_address_parts addr (cs (L1 c)) (cb (L1 c)) = Some (tg, si, off)"
      "find_line (L1 c) si tg = Some (Hit i)"
      "length (data t) \<le> 32"
      "store_line (L1 c) si i (addr AND (cB (L1 c) - 1))
         (data t @ replicate (32 - length (data t)) 0) (length (data t)) = Some l1'"
      "store_l2 (c\<lparr>L1_hit := L1_hit c + 1, L1 := l1'\<rparr>) addr
         (data t @ replicate (32 - length (data t)) 0) (length (data t))
         (r\<lparr>set_l1 := sint si, l1_hit := 1\<rparr>) = Some (c2, r2)"
      "write_block_to_ram (ram_fp c) addr
         (data t @ replicate (32 - length (data t)) 0) (length (data t)) (cB (L1 c)) = Some ram'"
      "c' = c2\<lparr>ram_fp := ram'\<rparr>"
      "r' = r2\<lparr>wrote_to_ram := 1\<rparr>"
    | (miss) tg si off v ram' where
      "extract_address_parts addr (cs (L1 c)) (cb (L1 c)) = Some (tg, si, off)"
      "find_line (L1 c) si tg = Some (Miss v)"
      "length (data t) \<le> 32"
      "write_block_to_ram (ram_fp c) addr
         (data t @ replicate (32 - length (data t)) 0) (length (data t)) (cB (L1 c)) = Some ram'"
      "store_l2 (c\<lparr>L1_miss := L1_miss c + 1, ram_fp := ram'\<rparr>) addr
         (data t @ replicate (32 - length (data t)) 0) (length (data t))
         (r\<lparr>set_l1 := sint si, l1_miss := 1, wrote_to_ram := 1\<rparr>) = Some (c', r')"
proof -
  from assms obtain tg si off f1 where
    e: "extract_address_parts addr (cs (L1 c)) (cb (L1 c)) = Some (tg, si, off)"
    and f: "find_line (L1 c) si tg = Some f1"
    and n: "length (data t) \<le> 32"
    unfolding access_store_def
    by (auto simp: Let_def split: Option.bind_splits if_splits)
  show ?thesis
  proof (cases f1)
    case (Hit i)
    with assms e f n obtain l1' c2 r2 ram' where
      "store_line (L1 c) si i (addr AND (cB (L1 c) - 1))
         (data t @ replicate (32 - length (data t)) 0) (length (data t)) = Some l1'"
      "store_l2 (c\<lparr>L1_hit := L1_hit c + 1, L1 := l1'\<rparr>) addr
         (data t @ replicate (32 - length (data t)) 0) (length (data t))
         (r\<lparr>set_l1 := sint si, l1_hit := 1\<rparr>) = Some (c2, r2)"
      "write_block_to_ram (ram_fp c2) addr
         (data t @ replicate (32 - length (data t)) 0) (length (data t)) (cB (L1 c2)) = Some ram'"
      "c' = c2\<lparr>ram_fp := ram'\<rparr>" "r' = r2\<lparr>wrote_to_ram := 1\<rparr>"
      unfolding access_store_def
      by (auto simp: Let_def split: Option.bind_splits if_splits)
    moreover from this(1) have "cB l1' = cB (L1 c)"
      by (elim store_line_SomeD) simp
    moreover from \<open>store_l2 _ _ _ _ _ = Some (c2, r2)\<close>
    have "L1 c2 = l1' \<and> ram_fp c2 = ram_fp c"
      by (elim store_l2_cases) auto
    ultimately show ?thesis
      using hit [OF e f [unfolded Hit] n] by auto
  next
    case (Miss v)
    with assms e f n obtain ram' where
      "write_block_to_ram (ram_fp c) addr
         (data t @ replicate (32 - length (data t)) 0) (length (data t)) (cB (L1 c)) = Some ram'"
      "store_l2 (c\<lparr>L1_miss := L1_miss c + 1, ram_fp := ram'\<rparr>) addr
         (data t @ replicate (32 - length (data t)) 0) (length (data t))
         (r\<lparr>set_l1 := sint si, l1_miss := 1, wrote_to_ram := 1\<rparr>) = Some (c', r')"
      unfolding access_store_def
      by (auto simp: Let_def split: Option.bind_splits if_splits)
    then show ?thesis
      using miss [OF e f [unfolded Miss] n] by auto
  qed
qed

lemma access_load_cases:
  assumes "access_load c addr r = Some (c', r')"
  obtains (hit) tg si off i where
      "extract_address_parts addr (cs (L1 c)) (cb (L1 c)) = Some (tg, si, off)"
      "find_line (L1 c) si tg = Some (Hit i)"
      "c' = c\<lparr>L1_hit := L1_hit c + 1\<rparr>"
      "r' = r\<lparr>set_l1 := sint si, l1_hit := 1\<rparr>"
    | (miss_hit) tg si off v tg2 si2 off2 i2 old l1' where
      "extract_address_parts addr (cs (L1 c)) (cb (L1 c)) = Some (tg, si, off)"
      "find_line (L1 c) si tg = Some (Miss v)"
      "extract_address_parts addr (cs (L2 c)) (cb (L2 c)) = Some (tg2, si2, off2)"
      "find_line (L2 c) si2 tg2 = Some (Hit i2)"
      "line_at (L1 c) si v = Some old"
      "fill_line (L1 c) si v tg (ram_fp c) addr = Some l1'"
      "c' = c\<lparr>L1 := l1', L1_miss := L1_miss c + 1, L2_hit := L2_hit c + 1,
               L1_evict := (if valid old \<noteq> 0 then L1_evict c + 1 else L1_evict c)\<rparr>"
      "r' = r\<lparr>set_l1 := sint si, l1_miss := 1, set_l2 := sint si2, l2_hit := 1,
               l1_evict := 1, placed_in_l1 := 1\<rparr>"
    | (miss_miss) tg si off v tg2 si2 off2 v2 old2 l2' old l1' where
      "extract_address_parts addr (cs (L1 c)) (cb (L1 c)) = Some (tg, si, off)"
      "find_line (L1 c) si tg = Some (Miss v)"
      "extract_address_parts addr (cs (L2 c)) (cb (L2 c)) = Some (tg2, si2, off2)"
      "find_line (L2 c) si2 tg2 = Some (Miss v2)"
      "line_at (L2 c) si2 v2 = Some old2"
      "fill_line (L2 c) si2 v2 tg2 (ram_fp c) addr = Some l2'"
      "line_at (L1 c) si v = Some old"
      "fill_line (L1 c) si v tg (ram_fp c) addr = Some l1'"
      "c' = c\<lparr>L1 := l1', L2 := l2', L1_miss := L1_miss c + 1, L2_miss := L2_miss c + 1,
               L2_evict := (if valid old2 \<noteq> 0 then L2_evict c + 1 else L2_evict c),
               L1_evict := (if valid old \<noteq> 0 then L1_evict c + 1 else L1_evict c)\<rparr>"
      "r' = r\<lparr>set_l1 := sint si, l1_miss := 1, set_l2 := sint si2, l2_miss := 1,
               l2_evict := (if valid old2 \<noteq> 0 then 1 else l2_evict r),
               placed_in_l2 := 1, l1_evict := 1, placed_in_l1 := 1\<rparr>"
proof -
  from assms obtain tg si off f1 where
    e: "extract_address_parts addr (cs (L1 c)) (cb (L1 c)) = Some (tg, si, off)"
    and f: "find_line (L1 c) si tg = Some f1"
    unfolding access_load_def
    by (auto simp: Let_def split: Option.bind_splits)
  show ?thesis
  proof (cases f1)
    case (Hit i)
    with assms e f show ?thesis
      using hit [OF e f [unfolded Hit]]
      unfolding access_load_def by (auto simp: Let_def)
  next
    case (Miss v)
    with assms e f obtain tg2 si2 off2 f2 where
      e2: "extract_address_parts addr (cs (L2 c)) (cb (L2 c)) = Some (tg2, si2, off2)"
      and f2: "find_line (L2 c) si2 tg2 = Some f2"
      unfolding access_load_def
      by (auto simp: Let_def split: Option.bind_splits)
    show ?thesis
    proof (cases f2)
      case (Hit i2)
      with assms e f Miss e2 f2 show ?thesis
        using miss_hit [OF e f [unfolded Miss] e2 f2 [unfolded Hit]]
        unfolding access_load_def
        by (auto simp: Let_def split: Option.bind_splits if_splits)
    next
      case m2: (Miss v2)
      with assms e f Miss e2 f2 show ?thesis
        using miss_miss [OF e f [unfolded Miss] e2 f2 [unfolded m2]]
        unfolding access_load_def
        by (auto simp: Let_def split: Option.bind_splits if_splits)
    qed
  qed
qed

section \<open>Stores\<close>

text \<open>The example machine is what \<open>main\<close> builds from its arguments.\<close>

lemma demo_machine_init:
  "main_init (\<lambda>_ _ _. 0) (\<lambda>_ _ _. 0) (\<lambda>_ _ _. 0) 1 2 2 1 2 3 ram32 = Some demo_machine"
  by (simp add: main_init_def args_accepted_def create_cache_def demo_machine_def demo_L1_def
      demo_L2_def fresh_line_def map_replicate_const)

lemma store_l2_frame:
  "store_l2 c addr db n r = Some (c', r') \<Longrightarrow>
     L1 c' = L1 c \<and> ram_fp c' = ram_fp c \<and> wrote_to_ram r' = wrote_to_ram r \<and>
     l1_hit r' = l1_hit r \<and> l1_miss r' = l1_miss r \<and> placed_in_l1 r' = placed_in_l1 r"
  by (erule store_l2_cases) auto




text \<open>
  Claim C5. A call of \<open>access_store\<close> whose lookup in L1 misses leaves the whole L1
  cache as it was (the lines with their valid bits, tags, stamps and block bytes, and
  the FIFO clock), and reports the miss without a placement in L1.
\<close>

theorem store_miss_leaves_L1:
  assumes "access_store c addr t r = Some (c', r')"
    and "extract_address_parts addr (cs (L1 c)) (cb (L1 c)) = Some (tg, si, off)"
    and "find_line (L1 c) si tg = Some (Miss v)"
  shows "L1 c' = L1 c \<and> l1_miss r' = 1 \<and> placed_in_l1 r' = placed_in_l1 r"
  using assms(1)
proof (cases rule: access_store_cases)
  case (hit tg' si' off' i l1' c2 r2 ram')
  with assms(2,3) show ?thesis by simp
next
  case (miss tg' si' off' v' ram')
  from store_l2_frame [OF miss(5)] show ?thesis by simp
qed

theorem store_miss_leaves_L1_witness:
  "extract_address_parts 0x5 (cs (L1 demo_ctx)) (cb (L1 demo_ctx)) = Some (0, 1, 1) \<and>
   find_line (L1 demo_ctx) 1 0 = Some (Miss 0) \<and>
   map_option (L1 \<circ> fst) (access_store demo_ctx 0x5 (store_op 0x5 [0xAA, 0xBB]) zero_result) = Some demo_L1"
proof -
  have e: "extract_address_parts 0x5 (cs (L1 demo_ctx)) (cb (L1 demo_ctx)) = Some (0, 1, 1)"
    by (simp add: demo_ctx_def data_ctx_def demo_machine_def demo_L1_def extract_address_parts_def)
  have f: "find_line (L1 demo_ctx) 1 0 = Some (Miss 0)"
    by (simp add: demo_ctx_def data_ctx_def demo_machine_def demo_L1_def find_line_def
        find_line_loop.simps fresh_line_def)
  obtain c' r' where s: "access_store demo_ctx 0x5 (store_op 0x5 [0xAA, 0xBB]) zero_result = Some (c', r')"
  proof -
    have "\<not> Option.is_none (access_store demo_ctx 0x5 (store_op 0x5 [0xAA, 0xBB]) zero_result)"
      by code_simp
    then show ?thesis using that by (auto simp: Option.is_none_def)
  qed
  have l1: "L1 demo_ctx = demo_L1"
    by (simp add: demo_ctx_def data_ctx_def demo_machine_def)
  from store_miss_leaves_L1 [OF s e f] have "L1 c' = demo_L1" unfolding l1 by blast
  with s e f show ?thesis by simp
qed

section \<open>Loads\<close>

text \<open>
  Claim C3 does not hold of the code. \<open>access_load\<close> counts an L1 eviction only when
  the victim line was valid, but it sets \<open>l1_evict\<close> in the result record after every
  L1 miss. On the fresh example machine the load of address 5 misses in L1, the victim
  (line 0 of set 1) is invalid, the counter \<open>L1_evict\<close> stays 0, and the result record
  reports an eviction.
\<close>

theorem load_reports_eviction_of_invalid_victim:
  "find_line (L1 demo_ctx) 1 0 = Some (Miss 0) \<and>
   map_option valid (line_at (L1 demo_ctx) 1 0) = Some 0 \<and>
   map_option (l1_miss \<circ> snd) (access_load demo_ctx 0x5 zero_result) = Some 1 \<and>
   map_option (l1_evict \<circ> snd) (access_load demo_ctx 0x5 zero_result) = Some 1 \<and>
   map_option (L1_evict \<circ> fst) (access_load demo_ctx 0x5 zero_result) = Some 0"
proof -
  have "find_line (L1 demo_ctx) 1 0 = Some (Miss 0)"
    by code_simp
  moreover have "map_option valid (line_at (L1 demo_ctx) 1 0) = Some 0"
    by code_simp
  moreover have "map_option (l1_miss \<circ> snd) (access_load demo_ctx 0x5 zero_result) = Some 1"
    by code_simp
  moreover have "map_option (l1_evict \<circ> snd) (access_load demo_ctx 0x5 zero_result) = Some 1"
    by code_simp
  moreover have "map_option (L1_evict \<circ> fst) (access_load demo_ctx 0x5 zero_result) = Some 0"
    by code_simp
  ultimately show ?thesis by blast
qed

section \<open>Invariants of the replay\<close>

lemma scan_clear_nat:
  "scan_clear ls tg 0 (int k) \<Longrightarrow> j < k \<Longrightarrow> valid (ls ! j) \<noteq> 0 \<and> tag (ls ! j) \<noteq> tg"
  unfolding scan_clear_def by (drule spec [of _ "int j"]) simp

text \<open>After a miss no valid line but possibly the victim carries the tag.\<close>

lemma miss_no_other_match:
  assumes g: "no_gap ls" and r: "resolved ls (int (length ls)) tg 0 (Miss v)"
    and j: "j < length ls" "j \<noteq> nat v" "valid (ls ! j) \<noteq> 0"
  shows "tag (ls ! j) \<noteq> tg"
proof -
  from r have v: "0 \<le> v" "nat v < length ls"
    and c: "valid (ls ! nat v) = 0 \<and> scan_clear ls tg 0 v \<or> scan_clear ls tg 0 (int (length ls))"
    by (auto simp: resolved_def)
  from c show ?thesis
  proof
    assume a: "valid (ls ! nat v) = 0 \<and> scan_clear ls tg 0 v"
    show ?thesis
    proof (cases "j < nat v")
      case True
      with a v show ?thesis using scan_clear_nat [of ls tg "nat v" j] by simp
    next
      case False
      with j have "nat v < j" by simp
      with g j have "valid (ls ! nat v) \<noteq> 0" unfolding no_gap_def by blast
      with a show ?thesis by simp
    qed
  next
    assume "scan_clear ls tg 0 (int (length ls))"
    with j show ?thesis using scan_clear_nat by blast
  qed
qed

lemma miss_victim_valid_or_rest:
  assumes r: "resolved ls (int (length ls)) tg 0 (Miss v)" and i: "i < nat v"
  shows "valid (ls ! i) \<noteq> 0"
proof -
  from r have v: "0 \<le> v" "nat v < length ls"
    and c: "scan_clear ls tg 0 v \<or> scan_clear ls tg 0 (int (length ls))"
    by (auto simp: resolved_def)
  from c show ?thesis
  proof
    assume "scan_clear ls tg 0 v"
    with v i show ?thesis using scan_clear_nat [of ls tg "nat v" i] by simp
  next
    assume "scan_clear ls tg 0 (int (length ls))"
    with v i show ?thesis using scan_clear_nat [of ls tg "length ls" i] by simp
  qed
qed

lemma fill_keeps_no_gap:
  assumes g: "no_gap ls" and r: "resolved ls (int (length ls)) tg 0 (Miss v)"
    and n: "valid ln \<noteq> 0"
  shows "no_gap (ls[nat v := ln])"
  unfolding no_gap_def
proof (intro allI impI)
  fix i j
  assume a: "i < j \<and> j < length (ls[nat v := ln]) \<and> valid (ls[nat v := ln] ! j) \<noteq> 0"
  then have ij: "i < j" "j < length ls" "i < length ls" by auto
  show "valid (ls[nat v := ln] ! i) \<noteq> 0"
  proof (cases "i = nat v")
    case True
    with ij n show ?thesis by simp
  next
    case iv: False
    show ?thesis
    proof (cases "j = nat v")
      case True
      with ij have "i < nat v" by simp
      from miss_victim_valid_or_rest [OF r this] iv ij show ?thesis by simp
    next
      case False
      with a ij have "valid (ls ! j) \<noteq> 0" by simp
      with g ij have "valid (ls ! i) \<noteq> 0" unfolding no_gap_def by blast
      with iv ij show ?thesis by simp
    qed
  qed
qed

lemma fill_keeps_tags_distinct:
  assumes g: "no_gap ls" and d: "tags_distinct ls"
    and r: "resolved ls (int (length ls)) tg 0 (Miss v)"
    and t: "tag ln = tg"
  shows "tags_distinct (ls[nat v := ln])"
  unfolding tags_distinct_def
proof (intro allI impI)
  fix i j
  let ?ls = "ls[nat v := ln]"
  assume a: "i < length ?ls \<and> j < length ?ls \<and> valid (?ls ! i) \<noteq> 0 \<and> valid (?ls ! j) \<noteq> 0 \<and>
    tag (?ls ! i) = tag (?ls ! j)"
  then have ij: "i < length ls" "j < length ls" by auto
  consider (both) "i = nat v" "j = nat v" | (left) "i = nat v" "j \<noteq> nat v"
    | (right) "i \<noteq> nat v" "j = nat v" | (none) "i \<noteq> nat v" "j \<noteq> nat v" by blast
  then show "i = j"
  proof cases
    case both
    then show ?thesis by simp
  next
    case left
    with a ij t have "valid (ls ! j) \<noteq> 0" "tag (ls ! j) = tg" by auto
    with miss_no_other_match [OF g r ij(2) left(2)] show ?thesis by simp
  next
    case right
    with a ij t have "valid (ls ! i) \<noteq> 0" "tag (ls ! i) = tg" by auto
    with miss_no_other_match [OF g r ij(1) right(1)] show ?thesis by simp
  next
    case none
    with a ij have "valid (ls ! i) \<noteq> 0" "valid (ls ! j) \<noteq> 0" "tag (ls ! i) = tag (ls ! j)" by auto
    with d ij show ?thesis unfolding tags_distinct_def by blast
  qed
qed

lemma block_update_keeps:
  assumes "i < length ls"
  shows "no_gap (ls[i := (ls ! i)\<lparr>block := blk\<rparr>]) = no_gap ls"
    and "tags_distinct (ls[i := (ls ! i)\<lparr>block := blk\<rparr>]) = tags_distinct ls"
proof -
  let ?ls = "ls[i := (ls ! i)\<lparr>block := blk\<rparr>]"
  have v: "valid (?ls ! k) = valid (ls ! k)" and t: "tag (?ls ! k) = tag (ls ! k)" for k
    using assms by (cases "k = i"; simp)+
  show "no_gap ?ls = no_gap ls" by (simp add: no_gap_def v)
  show "tags_distinct ?ls = tags_distinct ls" by (simp add: tags_distinct_def v t)
qed


lemma find_line_shaped:
  assumes "shaped c" and f: "find_line c si tg = Some r"
  shows "unat si < length (sets c)"
    and "cE c = int (length (lines (sets c ! unat si)))"
    and "lines (sets c ! unat si) \<noteq> []"
    and "resolved (lines (sets c ! unat si)) (int (length (lines (sets c ! unat si)))) tg 0 r"
proof -
  let ?ls = "lines (sets c ! unat si)"
  from f show si: "unat si < length (sets c)"
    by (auto simp: find_line_def split: if_splits)
  from f show ne: "?ls \<noteq> []"
    by (auto simp: find_line_def Let_def split: if_splits)
  from assms(1) si have "length ?ls = nat (cE c)" by (simp add: shaped_def)
  with ne show E: "cE c = int (length ?ls)" by (cases "0 \<le> cE c") auto
  from find_line_spec [OF si refl E ne, of tg] f E
  show "resolved ?ls (int (length ?ls)) tg 0 r"
    by auto
qed

lemma shaped_put_line:
  assumes "shaped c" "length (block ln) = unat (cB c)"
  shows "shaped (put_line c si i ln)"
  unfolding shaped_def
proof (intro conjI allI impI)
  show "length (sets (put_line c si i ln)) = 2 ^ nat (cs (put_line c si i ln))"
    using assms by (simp add: shaped_def)
  show "cB (put_line c si i ln) = push_bit (nat (cb (put_line c si i ln))) 1"
    using assms by (simp add: shaped_def)
  fix k assume "k < length (sets (put_line c si i ln))"
  then have k: "k < length (sets c)" by simp
  show "length (lines (sets (put_line c si i ln) ! k)) = nat (cE (put_line c si i ln))"
    using assms k by (simp add: lines_put_line shaped_def)
  show "\<forall>l \<in> set (lines (sets (put_line c si i ln) ! k)). length (block l) = unat (cB (put_line c si i ln))"
  proof
    fix l assume "l \<in> set (lines (sets (put_line c si i ln) ! k))"
    then have "l = ln \<or> l \<in> set (lines (sets c ! k))"
      using k set_update_subset_insert [of "lines (sets c ! k)" "nat i" ln]
      by (auto simp: lines_put_line split: if_splits)
    then show "length (block l) = unat (cB (put_line c si i ln))"
      using assms k by (auto simp: shaped_def)
  qed
qed

lemma shaped_fifo_time [simp]: "shaped (c\<lparr>fifo_time := x\<rparr>) = shaped c"
  by (simp add: shaped_def)

lemma cache_inv_fifo_time [simp]: "cache_inv (c\<lparr>fifo_time := x\<rparr>) = cache_inv c"
  by (simp add: cache_inv_def)

lemma fill_line_inv:
  assumes inv: "cache_inv c" and f: "find_line c si tg = Some (Miss v)"
    and fl: "fill_line c si v tg ram addr = Some c'"
  shows "cache_inv c'"
proof -
  from fl obtain old blk where old: "line_at c si v = Some old"
    and rd: "read_block_from_ram ram addr (block old) (cB c) = Some blk"
    and c': "c' = (put_line c si v \<lparr>valid = 1, tag = tg, fifo_counter = fifo_time c, block = blk\<rparr>)
            \<lparr>fifo_time := fifo_time c + 1\<rparr>"
    by (rule fill_line_SomeD)
  let ?ln = "\<lparr>valid = 1, tag = tg, fifo_counter = fifo_time c, block = blk\<rparr>"
  let ?ls = "lines (sets c ! unat si)"
  from inv have sh: "shaped c" by (simp add: cache_inv_def)
  note fs = find_line_shaped [OF sh f]
  from line_at_SomeD [OF old] have o: "nat v < length ?ls" "old = ?ls ! nat v" by auto
  then have "old \<in> set ?ls" by simp
  with sh fs(1) have "length (block old) = unat (cB c)" by (simp add: shaped_def)
  moreover have "length blk = length (block old)"
    using rd by (simp add: read_block_from_ram_def fread_buf_length)
  ultimately have sh': "shaped (put_line c si v ?ln)"
    using sh by (intro shaped_put_line) simp_all
  have "no_gap (lines (sets (put_line c si v ?ln) ! k)) \<and>
        tags_distinct (lines (sets (put_line c si v ?ln) ! k))"
    if k: "k < length (sets c)" for k
  proof (cases "k = unat si")
    case True
    from inv fs(1) have g: "no_gap ?ls" and d: "tags_distinct ?ls" by (auto simp: cache_inv_def)
    from fill_keeps_no_gap [OF g fs(4), of ?ln] fill_keeps_tags_distinct [OF g d fs(4), of ?ln]
    show ?thesis using True k by (simp add: lines_put_line)
  next
    case False
    with inv k show ?thesis by (simp add: lines_put_line cache_inv_def)
  qed
  with sh' show ?thesis unfolding c' by (simp add: cache_inv_def)
qed

lemma store_line_inv:
  assumes inv: "cache_inv c" and st: "store_line c si i off db n = Some c'"
  shows "cache_inv c'"
proof -
  from st obtain old blk where old: "line_at c si i = Some old"
    and mc: "memcpy (block old) (unat off) db n = Some blk"
    and c': "c' = put_line c si i (old\<lparr>block := blk\<rparr>)"
    by (rule store_line_SomeD)
  let ?ls = "lines (sets c ! unat si)"
  from inv have sh: "shaped c" by (simp add: cache_inv_def)
  from line_at_SomeD [OF old] have o: "unat si < length (sets c)" "nat i < length ?ls" "old = ?ls ! nat i"
    by auto
  then have "old \<in> set ?ls" by simp
  with sh o(1) have "length (block old) = unat (cB c)" by (simp add: shaped_def)
  with memcpy_length [OF mc] have sh': "shaped c'"
    unfolding c' using sh by (intro shaped_put_line) simp_all
  have "no_gap (lines (sets c' ! k)) \<and> tags_distinct (lines (sets c' ! k))"
    if k: "k < length (sets c)" for k
  proof (cases "k = unat si")
    case True
    from inv o(1) have g: "no_gap ?ls" and d: "tags_distinct ?ls" by (auto simp: cache_inv_def)
    with block_update_keeps [OF o(2), of blk] show ?thesis
      unfolding c' using True k o(3) by (simp add: lines_put_line)
  next
    case False
    with inv k show ?thesis unfolding c' by (simp add: lines_put_line cache_inv_def)
  qed
  with sh' show ?thesis unfolding c' by (simp add: cache_inv_def)
qed

lemma fill_line_finds:
  "fill_line c si v tg ram addr = Some c' \<Longrightarrow> cB c' = cB c \<and> cs c' = cs c \<and> cb c' = cb c \<and> cE c' = cE c"
  by (erule fill_line_SomeD) simp

lemma store_l2_inv:
  assumes "cache_inv (L2 c)" "store_l2 c addr db n r = Some (c', r')"
  shows "cache_inv (L2 c')"
  using assms(2)
proof (cases rule: store_l2_cases)
  case (hit tg si off i l2')
  with store_line_inv [OF assms(1) hit(3)] show ?thesis by simp
next
  case (miss tg si off v old l2' l2'')
  from fill_line_inv [OF assms(1) miss(2) miss(4)] have "cache_inv l2'" .
  from store_line_inv [OF this miss(5)] miss(6) show ?thesis by simp
qed

lemma access_load_inv:
  assumes "cache_inv (L1 c)" "cache_inv (L2 c)" "access_load c addr r = Some (c', r')"
  shows "cache_inv (L1 c') \<and> cache_inv (L2 c')"
  using assms(3)
proof (cases rule: access_load_cases)
  case (hit tg si off i)
  with assms show ?thesis by simp
next
  case (miss_hit tg si off v tg2 si2 off2 i2 old l1')
  with fill_line_inv [OF assms(1) miss_hit(2) miss_hit(6)] assms(2) show ?thesis by simp
next
  case (miss_miss tg si off v tg2 si2 off2 v2 old2 l2' old l1')
  with fill_line_inv [OF assms(1) miss_miss(2) miss_miss(8)]
    fill_line_inv [OF assms(2) miss_miss(4) miss_miss(6)] show ?thesis by simp
qed

lemma access_store_inv:
  assumes "cache_inv (L1 c)" "cache_inv (L2 c)" "access_store c addr t r = Some (c', r')"
  shows "cache_inv (L1 c') \<and> cache_inv (L2 c')"
  using assms(3)
proof (cases rule: access_store_cases)
  case (hit tg si off i l1' c2 r2 ram')
  from store_line_inv [OF assms(1) hit(4)] have l1: "cache_inv l1'" .
  from store_l2_frame [OF hit(5)] have "L1 c2 = l1'" by simp
  moreover from store_l2_inv [OF _ hit(5)] assms(2) have "cache_inv (L2 c2)" by simp
  ultimately show ?thesis using l1 hit(7) by simp
next
  case (miss tg si off v ram')
  from store_l2_frame [OF miss(5)] assms(1) have "cache_inv (L1 c')" by simp
  moreover from store_l2_inv [OF _ miss(5)] assms(2) have "cache_inv (L2 c')" by simp
  ultimately show ?thesis by simp
qed

lemma access_modify_SomeD:
  assumes "access_modify c addr t lr sr = Some (c', lr', sr')"
  obtains c1 where "access_load c addr zero_result = Some (c1, lr')"
    "access_store c1 addr t zero_result = Some (c', sr')"
  using assms unfolding access_modify_def
  by (auto simp: Let_def split: Option.bind_splits)

lemma step_inv:
  assumes "machine_inv m" "step m t = Some m'"
  shows "machine_inv m'"
proof -
  let ?m = "m\<lparr>m_load_res := zero_result, m_store_res := zero_result\<rparr>"
  have d: "L1 (data_ctx ?m) = m_L1D m" "L2 (data_ctx ?m) = m_L2 m"
    "L1 (inst_ctx ?m) = m_L1I m" "L2 (inst_ctx ?m) = m_L2 m"
    by (simp_all add: data_ctx_def inst_ctx_def)
  from assms(1) have i: "cache_inv (m_L1D m)" "cache_inv (m_L1I m)" "cache_inv (m_L2 m)"
    by (simp_all add: machine_inv_def)
  consider (load) "op t = LOAD" | (inst) "op t = INST" | (store) "op t = STORE" | (modify) "op t = MODIFY"
    by (cases "op t") auto
  then show ?thesis
  proof cases
    case load
    with assms(2) obtain c r where a: "access_load (data_ctx ?m) (address t) zero_result = Some (c, r)"
      and m': "m' = (from_data_ctx ?m c)\<lparr>m_load_res := r\<rparr>"
      by (auto simp: step_def Let_def split: Option.bind_splits)
    from access_load_inv [OF _ _ a] i d show ?thesis
      unfolding m' by (simp add: machine_inv_def from_data_ctx_def)
  next
    case inst
    with assms(2) obtain c r where a: "access_load (inst_ctx ?m) (address t) zero_result = Some (c, r)"
      and m': "m' = (from_inst_ctx ?m c)\<lparr>m_load_res := r\<rparr>"
      by (auto simp: step_def Let_def split: Option.bind_splits)
    from access_load_inv [OF _ _ a] i d show ?thesis
      unfolding m' by (simp add: machine_inv_def from_inst_ctx_def)
  next
    case store
    with assms(2) obtain c r where a: "access_store (data_ctx ?m) (address t) t zero_result = Some (c, r)"
      and m': "m' = (from_data_ctx ?m c)\<lparr>m_store_res := r\<rparr>"
      by (auto simp: step_def Let_def split: Option.bind_splits)
    from access_store_inv [OF _ _ a] i d show ?thesis
      unfolding m' by (simp add: machine_inv_def from_data_ctx_def)
  next
    case modify
    with assms(2) obtain c lr sr where
      a: "access_modify (data_ctx ?m) (address t) t zero_result zero_result = Some (c, lr, sr)"
      and m': "m' = (from_data_ctx ?m c)\<lparr>m_load_res := lr, m_store_res := sr\<rparr>"
      by (auto simp: step_def Let_def split: Option.bind_splits)
    from a obtain c1 where l: "access_load (data_ctx ?m) (address t) zero_result = Some (c1, lr)"
      and s: "access_store c1 (address t) t zero_result = Some (c, sr)"
      by (rule access_modify_SomeD)
    from access_load_inv [OF _ _ l] i d have "cache_inv (L1 c1) \<and> cache_inv (L2 c1)" by simp
    with access_store_inv [OF _ _ s] have "cache_inv (L1 c) \<and> cache_inv (L2 c)" by simp
    with i show ?thesis
      unfolding m' by (simp add: machine_inv_def from_data_ctx_def)
  qed
qed

lemma run_inv: "machine_inv m \<Longrightarrow> run m ts = Some m' \<Longrightarrow> machine_inv m'"
proof (induction ts arbitrary: m)
  case Nil
  then show ?case by simp
next
  case (Cons t ts)
  from Cons.prems(2) obtain m1 where s: "step m t = Some m1" and r: "run m1 ts = Some m'"
    by (auto split: option.splits)
  from Cons.IH [OF step_inv [OF Cons.prems(1) s] r] show ?case .
qed

lemma create_cache_inv:
  assumes "create_cache junk s E b = Some c"
  shows "cache_inv c"
proof -
  from assms have r: "0 \<le> s" "s < 31" "0 \<le> b" "b < 31"
    and c: "c = \<lparr>sets = map (\<lambda>i. \<lparr>lines = map (\<lambda>j. \<lparr>valid = 0, tag = 0, fifo_counter = 0,
                                              block = map (junk i j) [0 ..< 2 ^ nat b]\<rparr>)
                                      [0 ..< nat E]\<rparr>)
                    [0 ..< 2 ^ nat s],
         cs = s, cE = E, cb = b,
         cS = push_bit (nat s) 1, cB = push_bit (nat b) 1,
         fifo_time = 0\<rparr>"
    by (auto simp: create_cache_def split: if_splits)
  have B: "unat ((2::u32) ^ nat b) = 2 ^ nat b"
    using r unat_pow2 [of "nat b"] by (simp add: push_bit_of_1)
  show ?thesis
    unfolding c cache_inv_def shaped_def no_gap_def tags_distinct_def
    by (auto simp: B)
qed

lemma main_init_inv:
  assumes "main_init jD jI j2 L1s L1E L1b L2s L2E L2b ram = Some m"
  shows "machine_inv m"
proof -
  from assms obtain l1d l1i l2 where
    "create_cache jD L1s L1E L1b = Some l1d" "create_cache jI L1s L1E L1b = Some l1i"
    "create_cache j2 L2s L2E L2b = Some l2"
    "m_L1D m = l1d" "m_L1I m = l1i" "m_L2 m = l2"
    by (auto simp: main_init_def split: if_splits Option.bind_splits)
  then show ?thesis
    using create_cache_inv by (simp add: machine_inv_def)
qed

section \<open>Tag uniqueness\<close>

lemma cache_inv_tag_unique: "cache_inv c \<Longrightarrow> tag_unique c"
  by (simp add: cache_inv_def tag_unique_def)

lemma run_demo_trace: "\<exists>m. run demo_machine demo_trace = Some m"
proof -
  have "\<not> Option.is_none (run demo_machine demo_trace)" by code_simp
  then show ?thesis by (auto simp: Option.is_none_def)
qed

text \<open>
  Claim C4. Starting from the caches that \<open>main\<close> creates (every line invalid), after
  every sequence of LOAD, STORE, MODIFY and INST operations that the replay loop runs,
  in every set of L1D, L1I and L2 at most one valid line carries any given tag.
\<close>

theorem tag_uniqueness_reachable:
  assumes "main_init jD jI j2 L1s L1E L1b L2s L2E L2b ram = Some m0"
    and "run m0 ts = Some m"
  shows "tag_unique (m_L1D m) \<and> tag_unique (m_L1I m) \<and> tag_unique (m_L2 m)"
proof -
  from run_inv [OF main_init_inv [OF assms(1)] assms(2)] show ?thesis
    by (simp add: machine_inv_def cache_inv_tag_unique)
qed

theorem tag_uniqueness_reachable_witness:
  "\<exists>m. run demo_machine demo_trace = Some m \<and>
       tag_unique (m_L1D m) \<and> tag_unique (m_L1I m) \<and> tag_unique (m_L2 m)"
proof -
  from run_demo_trace obtain m where r: "run demo_machine demo_trace = Some m" ..
  from tag_uniqueness_reachable [OF demo_machine_init r] r show ?thesis by blast
qed

section \<open>Fill after a miss in L1\<close>

lemma fill_line_only_line:
  assumes inv: "cache_inv c" and f: "find_line c si tg = Some (Miss v)"
    and fl: "fill_line c si v tg ram addr = Some c'"
  shows "only_line (lines (sets c' ! unat si)) (nat v) tg"
proof -
  from fl obtain old blk where old: "line_at c si v = Some old"
    and c': "c' = (put_line c si v \<lparr>valid = 1, tag = tg, fifo_counter = fifo_time c, block = blk\<rparr>)
            \<lparr>fifo_time := fifo_time c + 1\<rparr>"
    by (rule fill_line_SomeD)
  let ?ln = "\<lparr>valid = 1, tag = tg, fifo_counter = fifo_time c, block = blk\<rparr>"
  let ?ls = "lines (sets c ! unat si)"
  from inv have sh: "shaped c" by (simp add: cache_inv_def)
  note fs = find_line_shaped [OF sh f]
  from inv fs(1) have g: "no_gap ?ls" by (simp add: cache_inv_def)
  from line_at_SomeD [OF old] have v: "nat v < length ?ls" by simp
  have ls': "lines (sets c' ! unat si) = ?ls[nat v := ?ln]"
    unfolding c' using fs(1) by (simp add: lines_put_line)
  show ?thesis
    unfolding ls' only_line_def
  proof (intro conjI allI impI)
    fix j assume j: "j < length (?ls[nat v := ?ln])"
      and m: "valid (?ls[nat v := ?ln] ! j) \<noteq> 0 \<and> tag (?ls[nat v := ?ln] ! j) = tg"
    show "j = nat v"
    proof (rule ccontr)
      assume n: "j \<noteq> nat v"
      with j m have "j < length ?ls" "valid (?ls ! j) \<noteq> 0" "tag (?ls ! j) = tg" by auto
      with miss_no_other_match [OF g fs(4) _ n] show False by blast
    qed
  qed (use v in simp_all)
qed

lemma resolved_hit_unique:
  assumes r: "resolved ls E tg 0 r" and v: "0 \<le> v" "v < E"
    and m: "valid (ls ! nat v) \<noteq> 0" "tag (ls ! nat v) = tg"
    and c: "scan_clear ls tg 0 v"
  shows "r = Hit v"
proof (cases r)
  case (Hit k)
  with r have k: "0 \<le> k" "valid (ls ! nat k) \<noteq> 0" "tag (ls ! nat k) = tg" "scan_clear ls tg 0 k"
    by (auto simp: resolved_def)
  have "\<not> k < v" using c k unfolding scan_clear_def by blast
  moreover have "\<not> v < k" using k(4) m v unfolding scan_clear_def by blast
  ultimately show ?thesis using Hit by simp
next
  case (Miss w)
  with r have w: "0 \<le> w" "w < E"
    and d: "valid (ls ! nat w) = 0 \<and> scan_clear ls tg 0 w \<or> scan_clear ls tg 0 E"
    by (auto simp: resolved_def)
  from d show ?thesis
  proof
    assume a: "valid (ls ! nat w) = 0 \<and> scan_clear ls tg 0 w"
    have "\<not> w < v" using c a w unfolding scan_clear_def by blast
    moreover have "\<not> v < w" using a m v unfolding scan_clear_def by blast
    ultimately have "w = v" by simp
    with a m show ?thesis by simp
  next
    assume "scan_clear ls tg 0 E"
    with m v show ?thesis unfolding scan_clear_def by blast
  qed
qed

lemma find_line_after_fill:
  assumes inv: "cache_inv c" and f: "find_line c si tg = Some (Miss v)"
    and fl: "fill_line c si v tg ram addr = Some c'"
  shows "find_line c' si tg = Some (Hit v)"
proof -
  from fl obtain old blk where old: "line_at c si v = Some old"
    and c': "c' = (put_line c si v \<lparr>valid = 1, tag = tg, fifo_counter = fifo_time c, block = blk\<rparr>)
            \<lparr>fifo_time := fifo_time c + 1\<rparr>"
    by (rule fill_line_SomeD)
  let ?ln = "\<lparr>valid = 1, tag = tg, fifo_counter = fifo_time c, block = blk\<rparr>"
  let ?ls = "lines (sets c ! unat si)"
  let ?ls' = "?ls[nat v := ?ln]"
  from inv have sh: "shaped c" by (simp add: cache_inv_def)
  note fs = find_line_shaped [OF sh f]
  from line_at_SomeD [OF old] have v: "0 \<le> v" "nat v < length ?ls" by simp_all
  have ls': "lines (sets c' ! unat si) = ?ls'"
    unfolding c' using fs(1) by (simp add: lines_put_line)
  have si': "unat si < length (sets c')" unfolding c' using fs(1) by simp
  have E': "cE c' = int (length (lines (sets c' ! unat si)))"
    unfolding ls' using fs(2) by (simp add: c')
  have ne: "lines (sets c' ! unat si) \<noteq> []" unfolding ls' using fs(3) by simp
  from find_line_spec [OF si' refl E' ne, of tg]
  obtain r where r: "find_line c' si tg = Some r" by blast
  from fill_line_inv [OF inv f fl] have sh': "shaped c'" by (simp add: cache_inv_def)
  from find_line_shaped(4) [OF sh' r] have res: "resolved ?ls' (int (length ?ls)) tg 0 r"
    unfolding ls' by simp
  from fs(4) have "scan_clear ?ls tg 0 v"
    by (auto simp: resolved_def scan_clear_def)
  then have sc: "scan_clear ?ls' tg 0 v"
    unfolding scan_clear_def by auto
  have "r = Hit v"
    using v by (intro resolved_hit_unique [OF res _ _ _ _ sc]) simp_all
  with r show ?thesis by simp
qed

lemma access_load_miss_fills:
  assumes inv: "cache_inv (L1 c)"
    and e: "extract_address_parts addr (cs (L1 c)) (cb (L1 c)) = Some (tg, si, off)"
    and f: "find_line (L1 c) si tg = Some (Miss v)"
    and a: "access_load c addr r = Some (c', r')"
  shows "only_line (lines (sets (L1 c') ! unat si)) (nat v) tg"
  using a
proof (cases rule: access_load_cases)
  case (hit tg' si' off' i)
  with e f show ?thesis by simp
next
  case (miss_hit tg' si' off' v' tg2 si2 off2 i2 old l1')
  with e f have "fill_line (L1 c) si v tg (ram_fp c) addr = Some l1'" by simp
  from fill_line_only_line [OF inv f this] miss_hit(7) show ?thesis by simp
next
  case (miss_miss tg' si' off' v' tg2 si2 off2 v2 old2 l2' old l1')
  with e f have "fill_line (L1 c) si v tg (ram_fp c) addr = Some l1'" by simp
  from fill_line_only_line [OF inv f this] miss_miss(9) show ?thesis by simp
qed

lemma step_load_SomeD:
  assumes "step m t = Some m'" "op t = LOAD"
  obtains c r where
    "access_load (data_ctx m) (address t) zero_result = Some (c, r)"
    "m_L1D m' = L1 c" "m_L2 m' = L2 c" "m_L1I m' = m_L1I m" "m_load_res m' = r"
proof -
  have d: "data_ctx (m\<lparr>m_load_res := zero_result, m_store_res := zero_result\<rparr>) = data_ctx m"
    by (simp add: data_ctx_def)
  from assms obtain c r where "access_load (data_ctx m) (address t) zero_result = Some (c, r)"
    "m' = (from_data_ctx (m\<lparr>m_load_res := zero_result, m_store_res := zero_result\<rparr>) c)\<lparr>m_load_res := r\<rparr>"
    by (auto simp: step_def Let_def d split: Option.bind_splits)
  then show ?thesis using that by (simp add: from_data_ctx_def)
qed

lemma step_inst_SomeD:
  assumes "step m t = Some m'" "op t = INST"
  obtains c r where
    "access_load (inst_ctx m) (address t) zero_result = Some (c, r)"
    "m_L1I m' = L1 c" "m_L2 m' = L2 c" "m_L1D m' = m_L1D m" "m_load_res m' = r"
proof -
  have d: "inst_ctx (m\<lparr>m_load_res := zero_result, m_store_res := zero_result\<rparr>) = inst_ctx m"
    by (simp add: inst_ctx_def)
  from assms obtain c r where "access_load (inst_ctx m) (address t) zero_result = Some (c, r)"
    "m' = (from_inst_ctx (m\<lparr>m_load_res := zero_result, m_store_res := zero_result\<rparr>) c)\<lparr>m_load_res := r\<rparr>"
    by (auto simp: step_def Let_def d split: Option.bind_splits)
  then show ?thesis using that by (simp add: from_inst_ctx_def)
qed

text \<open>
  Claim C6. In every state the replay reaches, a LOAD (on L1D) or an INST (on L1I) that
  misses in L1 ends with exactly one line of the addressed set valid with the tag of the
  address, and that line is the victim the lookup chose. Nothing is assumed about the
  outcome of the lookup in L2.
\<close>

theorem load_miss_fills_one_line:
  assumes "main_init jD jI j2 L1s L1E L1b L2s L2E L2b ram = Some m0"
    and "run m0 ts = Some m"
    and "op t = LOAD \<or> op t = INST"
    and "extract_address_parts (address t) (cs (l1_for m t)) (cb (l1_for m t)) = Some (tg, si, off)"
    and "find_line (l1_for m t) si tg = Some (Miss v)"
    and "step m t = Some m'"
  shows "only_line (lines (sets (l1_for m' t) ! unat si)) (nat v) tg"
proof -
  from run_inv [OF main_init_inv [OF assms(1)] assms(2)]
  have inv: "cache_inv (m_L1D m)" "cache_inv (m_L1I m)" by (simp_all add: machine_inv_def)
  from assms(3) show ?thesis
  proof
    assume l: "op t = LOAD"
    from assms(6) l obtain c r where
      a: "access_load (data_ctx m) (address t) zero_result = Some (c, r)" and m': "m_L1D m' = L1 c"
      by (rule step_load_SomeD)
    have d: "L1 (data_ctx m) = m_L1D m" by (simp add: data_ctx_def)
    from access_load_miss_fills [OF _ _ _ a, of tg si off v] inv assms(4,5) l d m'
    show ?thesis by (simp add: l1_for_def)
  next
    assume l: "op t = INST"
    from assms(6) l obtain c r where
      a: "access_load (inst_ctx m) (address t) zero_result = Some (c, r)" and m': "m_L1I m' = L1 c"
      by (rule step_inst_SomeD)
    have d: "L1 (inst_ctx m) = m_L1I m" by (simp add: inst_ctx_def)
    from access_load_miss_fills [OF _ _ _ a, of tg si off v] inv assms(4,5) l d m'
    show ?thesis by (simp add: l1_for_def)
  qed
qed


theorem load_miss_fills_one_line_witness:
  "\<exists>m m'. run demo_machine [inst_op 0] = Some m \<and>
     find_line (l1_for m (load_op 0)) 0 0 = Some (Miss 0) \<and>
     step m (load_op 0) = Some m' \<and> l2_hit (m_load_res m') = 1 \<and>
     only_line (lines (sets (l1_for m' (load_op 0)) ! unat (0 :: u32))) (nat 0) 0"
proof -
  have "\<not> Option.is_none (Option.bind (run demo_machine [inst_op 0]) (\<lambda>m. step m (load_op 0)))"
    by code_simp
  then obtain m m' where r: "run demo_machine [inst_op 0] = Some m" and s: "step m (load_op 0) = Some m'"
    by (auto simp: Option.is_none_def split: Option.bind_splits)
  have "Option.bind (run demo_machine [inst_op 0])
      (\<lambda>m. extract_address_parts (address (load_op 0)) (cs (l1_for m (load_op 0))) (cb (l1_for m (load_op 0))))
      = Some (0, 0, 0)"
    by code_simp
  with r have e: "extract_address_parts (address (load_op 0)) (cs (l1_for m (load_op 0)))
      (cb (l1_for m (load_op 0))) = Some (0, 0, 0)" by simp
  have "Option.bind (run demo_machine [inst_op 0]) (\<lambda>m. find_line (l1_for m (load_op 0)) 0 0)
      = Some (Miss 0)"
    by code_simp
  with r have f: "find_line (l1_for m (load_op 0)) 0 0 = Some (Miss 0)" by simp
  have "Option.bind (run demo_machine [inst_op 0])
      (\<lambda>m. map_option (l2_hit \<circ> m_load_res) (step m (load_op 0))) = Some 1"
    by code_simp
  with r s have h: "l2_hit (m_load_res m') = 1" by simp
  have o: "op (load_op 0) = LOAD \<or> op (load_op 0) = INST" by (simp add: load_op_def)
  from load_miss_fills_one_line [OF demo_machine_init r o e f s] r f s h
  show ?thesis by blast
qed

section \<open>Modify\<close>

lemma access_store_op_irrelevant: "access_store c addr (t\<lparr>op := k\<rparr>) r = access_store c addr t r"
  by (simp add: access_store_def cong: if_cong)

lemma data_ctx_from_data_ctx [simp]: "data_ctx (from_data_ctx m c) = c"
  by (simp add: data_ctx_def from_data_ctx_def)

lemma data_ctx_results [simp]:
  "data_ctx (m\<lparr>m_load_res := x\<rparr>) = data_ctx m" "data_ctx (m\<lparr>m_store_res := y\<rparr>) = data_ctx m"
  by (simp_all add: data_ctx_def)

lemma modify_step_eq:
  assumes "op t = MODIFY"
  shows "step m t =
    (case step m (t\<lparr>op := LOAD\<rparr>) of
       None \<Rightarrow> None
     | Some m1 \<Rightarrow>
         (case step m1 (t\<lparr>op := STORE\<rparr>) of
            None \<Rightarrow> None
          | Some m2 \<Rightarrow> Some (m2\<lparr>m_load_res := m_load_res m1\<rparr>)))"
proof (cases "access_load (data_ctx m) (address t) zero_result")
  case None
  with assms show ?thesis
    by (simp add: step_def access_modify_def Let_def)
next
  case (Some p)
  obtain c1 lr where p: "p = (c1, lr)" by (cases p)
  show ?thesis
  proof (cases "access_store c1 (address t) t zero_result")
    case None
    with Some p assms show ?thesis
      by (simp add: step_def access_modify_def Let_def access_store_op_irrelevant)
  next
    case s: (Some q)
    obtain c2 sr where q: "q = (c2, sr)" by (cases q)
    let ?m = "m\<lparr>m_load_res := zero_result, m_store_res := zero_result\<rparr>"
    let ?m1 = "(from_data_ctx ?m c1)\<lparr>m_load_res := lr\<rparr>"
    let ?m1z = "?m1\<lparr>m_load_res := zero_result, m_store_res := zero_result\<rparr>"
    let ?m2 = "(from_data_ctx ?m1z c2)\<lparr>m_store_res := sr\<rparr>"
    have l: "step m (t\<lparr>op := LOAD\<rparr>) = Some ?m1"
      using Some p by (simp add: step_def)
    have d: "data_ctx ?m1z = c1" by simp
    have st: "step ?m1 (t\<lparr>op := STORE\<rparr>) = Some ?m2"
      using s q unfolding step_def Let_def d
      by (simp add: access_store_op_irrelevant)
    have md: "step m t = Some ((from_data_ctx ?m c2)\<lparr>m_load_res := lr, m_store_res := sr\<rparr>)"
      using Some p s q assms by (simp add: step_def access_modify_def)
    have "?m2\<lparr>m_load_res := m_load_res ?m1\<rparr>
        = (from_data_ctx ?m c2)\<lparr>m_load_res := lr, m_store_res := sr\<rparr>"
      by (simp add: from_data_ctx_def)
    with l st md show ?thesis by simp
  qed
qed


lemma access_modify_cold:
  assumes inv1: "cache_inv (L1 c)" and inv2: "cache_inv (L2 c)"
    and e1: "extract_address_parts addr (cs (L1 c)) (cb (L1 c)) = Some (tg, si, off)"
    and f1: "find_line (L1 c) si tg = Some (Miss v)"
    and e2: "extract_address_parts addr (cs (L2 c)) (cb (L2 c)) = Some (tg2, si2, off2)"
    and f2: "find_line (L2 c) si2 tg2 = Some (Miss v2)"
    and a: "access_modify c addr t lr sr = Some (c', lr', sr')"
  shows "l1_miss lr' = 1 \<and> l2_miss lr' = 1 \<and> placed_in_l1 lr' = 1 \<and> placed_in_l2 lr' = 1 \<and>
    l1_hit lr' = 0 \<and> l2_hit lr' = 0 \<and>
    l1_hit sr' = 1 \<and> l2_hit sr' = 1 \<and> l1_miss sr' = 0 \<and> l2_miss sr' = 0 \<and>
    L1_miss c' = L1_miss c + 1 \<and> L1_hit c' = L1_hit c + 1 \<and>
    L2_miss c' = L2_miss c + 1 \<and> L2_hit c' = L2_hit c + 1"
proof -
  from a obtain c1 where l: "access_load c addr zero_result = Some (c1, lr')"
    and s: "access_store c1 addr t zero_result = Some (c', sr')"
    by (rule access_modify_SomeD)
  from l obtain l1' l2' where
    fl1: "fill_line (L1 c) si v tg (ram_fp c) addr = Some l1'" and
    fl2: "fill_line (L2 c) si2 v2 tg2 (ram_fp c) addr = Some l2'" and
    c1: "L1 c1 = l1'" "L2 c1 = l2'" "L1_miss c1 = L1_miss c + 1" "L1_hit c1 = L1_hit c"
      "L2_miss c1 = L2_miss c + 1" "L2_hit c1 = L2_hit c" and
    lr: "l1_miss lr' = 1" "l2_miss lr' = 1" "placed_in_l1 lr' = 1" "placed_in_l2 lr' = 1"
      "l1_hit lr' = 0" "l2_hit lr' = 0"
  proof (cases rule: access_load_cases)
    case (hit tg' si' off' i)
    with e1 f1 show ?thesis by simp
  next
    case (miss_hit tg' si' off' v' tg2' si2' off2' i2 old l1')
    with e1 f1 e2 f2 show ?thesis by simp
  next
    case (miss_miss tg' si' off' v' tg2' si2' off2' v2' old2 l2' old l1')
    with e1 f1 e2 f2 that [of l1' l2'] show ?thesis by (simp add: zero_result_def)
  qed
  have h1: "find_line (L1 c1) si tg = Some (Hit v)"
    using find_line_after_fill [OF inv1 f1 fl1] c1 by simp
  have h2: "find_line (L2 c1) si2 tg2 = Some (Hit v2)"
    using find_line_after_fill [OF inv2 f2 fl2] c1 by simp
  have g1: "extract_address_parts addr (cs (L1 c1)) (cb (L1 c1)) = Some (tg, si, off)"
    using e1 fill_line_finds [OF fl1] c1 by simp
  have g2: "extract_address_parts addr (cs (L2 c1)) (cb (L2 c1)) = Some (tg2, si2, off2)"
    using e2 fill_line_finds [OF fl2] c1 by simp
  from s show ?thesis
  proof (cases rule: access_store_cases)
    case (miss tg' si' off' v' ram')
    with g1 h1 show ?thesis by simp
  next
    case (hit tg' si' off' i l1'' c2 r2 ram')
    from hit(5) show ?thesis
    proof (cases rule: store_l2_cases)
      case (miss tg2' si2' off2' v2' old l2a l2b)
      with g2 h2 show ?thesis by simp
    next
      case h: (hit tg2' si2' off2' i2 l2a)
      from h(4,5) hit(7,8) c1 lr show ?thesis by (simp add: zero_result_def)
    qed
  qed
qed

lemma step_modify_SomeD:
  assumes "step m t = Some m'" "op t = MODIFY"
  obtains c lr sr where
    "access_modify (data_ctx m) (address t) t zero_result zero_result = Some (c, lr, sr)"
    "m' = (from_data_ctx (m\<lparr>m_load_res := zero_result, m_store_res := zero_result\<rparr>) c)
            \<lparr>m_load_res := lr, m_store_res := sr\<rparr>"
  using assms by (auto simp: step_def Let_def split: Option.bind_splits)

text \<open>
  Claim C8. A MODIFY trace line does exactly what a LOAD of the address followed by a
  STORE to the same address does: the caches, the counters and the backing store end
  as after the two steps, the load-phase record is the record of the LOAD and the
  store-phase record is the record of the STORE, and both phases count into the same
  counters. In a state the replay reaches, when the lookups of the address miss in L1D
  and in L2, the load-phase record shows \<open>l1_miss\<close>, \<open>l2_miss\<close>, \<open>placed_in_l1\<close> and
  \<open>placed_in_l2\<close> and the store-phase record shows \<open>l1_hit\<close> and \<open>l2_hit\<close>; each of
  the four counters involved grows by one.
\<close>

theorem modify_is_load_then_store:
  assumes "op t = MODIFY"
  shows "step m t =
      (case step m (t\<lparr>op := LOAD\<rparr>) of
         None \<Rightarrow> None
       | Some m1 \<Rightarrow>
           (case step m1 (t\<lparr>op := STORE\<rparr>) of
              None \<Rightarrow> None
            | Some m2 \<Rightarrow> Some (m2\<lparr>m_load_res := m_load_res m1\<rparr>))) \<and>
    (main_init jD jI j2 L1s L1E L1b L2s L2E L2b ram = Some m0 \<and> run m0 ts = Some m \<and>
     extract_address_parts (address t) (cs (m_L1D m)) (cb (m_L1D m)) = Some (tg, si, off) \<and>
     find_line (m_L1D m) si tg = Some (Miss v) \<and>
     extract_address_parts (address t) (cs (m_L2 m)) (cb (m_L2 m)) = Some (tg2, si2, off2) \<and>
     find_line (m_L2 m) si2 tg2 = Some (Miss v2) \<and>
     step m t = Some m' \<longrightarrow>
       l1_miss (m_load_res m') = 1 \<and> l2_miss (m_load_res m') = 1 \<and>
       placed_in_l1 (m_load_res m') = 1 \<and> placed_in_l2 (m_load_res m') = 1 \<and>
       l1_hit (m_load_res m') = 0 \<and> l2_hit (m_load_res m') = 0 \<and>
       l1_hit (m_store_res m') = 1 \<and> l2_hit (m_store_res m') = 1 \<and>
       l1_miss (m_store_res m') = 0 \<and> l2_miss (m_store_res m') = 0 \<and>
       m_L1D_miss m' = m_L1D_miss m + 1 \<and> m_L1D_hit m' = m_L1D_hit m + 1 \<and>
       m_L2_miss m' = m_L2_miss m + 1 \<and> m_L2_hit m' = m_L2_hit m + 1)"
proof (rule conjI)
  show "step m t =
      (case step m (t\<lparr>op := LOAD\<rparr>) of
         None \<Rightarrow> None
       | Some m1 \<Rightarrow>
           (case step m1 (t\<lparr>op := STORE\<rparr>) of
              None \<Rightarrow> None
            | Some m2 \<Rightarrow> Some (m2\<lparr>m_load_res := m_load_res m1\<rparr>)))"
    using assms by (rule modify_step_eq)
next
  have "l1_miss (m_load_res m') = 1 \<and> l2_miss (m_load_res m') = 1 \<and>
       placed_in_l1 (m_load_res m') = 1 \<and> placed_in_l2 (m_load_res m') = 1 \<and>
       l1_hit (m_load_res m') = 0 \<and> l2_hit (m_load_res m') = 0 \<and>
       l1_hit (m_store_res m') = 1 \<and> l2_hit (m_store_res m') = 1 \<and>
       l1_miss (m_store_res m') = 0 \<and> l2_miss (m_store_res m') = 0 \<and>
       m_L1D_miss m' = m_L1D_miss m + 1 \<and> m_L1D_hit m' = m_L1D_hit m + 1 \<and>
       m_L2_miss m' = m_L2_miss m + 1 \<and> m_L2_hit m' = m_L2_hit m + 1"
    if h: "main_init jD jI j2 L1s L1E L1b L2s L2E L2b ram = Some m0 \<and> run m0 ts = Some m \<and>
     extract_address_parts (address t) (cs (m_L1D m)) (cb (m_L1D m)) = Some (tg, si, off) \<and>
     find_line (m_L1D m) si tg = Some (Miss v) \<and>
     extract_address_parts (address t) (cs (m_L2 m)) (cb (m_L2 m)) = Some (tg2, si2, off2) \<and>
     find_line (m_L2 m) si2 tg2 = Some (Miss v2) \<and>
     step m t = Some m'"
  proof -
  from h have "machine_inv m" using run_inv main_init_inv by blast
  then have inv: "cache_inv (L1 (data_ctx m))" "cache_inv (L2 (data_ctx m))"
    by (simp_all add: machine_inv_def data_ctx_def)
  from h assms obtain c lr sr where
    a: "access_modify (data_ctx m) (address t) t zero_result zero_result = Some (c, lr, sr)" and
    m': "m' = (from_data_ctx (m\<lparr>m_load_res := zero_result, m_store_res := zero_result\<rparr>) c)
            \<lparr>m_load_res := lr, m_store_res := sr\<rparr>"
    by (elim conjE step_modify_SomeD)
  have d: "L1 (data_ctx m) = m_L1D m" "L2 (data_ctx m) = m_L2 m"
    "L1_miss (data_ctx m) = m_L1D_miss m" "L1_hit (data_ctx m) = m_L1D_hit m"
    "L2_miss (data_ctx m) = m_L2_miss m" "L2_hit (data_ctx m) = m_L2_hit m"
    by (simp_all add: data_ctx_def)
  from h have e1: "extract_address_parts (address t) (cs (L1 (data_ctx m))) (cb (L1 (data_ctx m))) = Some (tg, si, off)"
    and f1: "find_line (L1 (data_ctx m)) si tg = Some (Miss v)"
    and e2: "extract_address_parts (address t) (cs (L2 (data_ctx m))) (cb (L2 (data_ctx m))) = Some (tg2, si2, off2)"
    and f2: "find_line (L2 (data_ctx m)) si2 tg2 = Some (Miss v2)"
    unfolding d by simp_all
  from access_modify_cold [OF inv e1 f1 e2 f2 a]
  show ?thesis
    unfolding m' d by (simp add: from_data_ctx_def)
  qed
  then show "main_init jD jI j2 L1s L1E L1b L2s L2E L2b ram = Some m0 \<and> run m0 ts = Some m \<and>
     extract_address_parts (address t) (cs (m_L1D m)) (cb (m_L1D m)) = Some (tg, si, off) \<and>
     find_line (m_L1D m) si tg = Some (Miss v) \<and>
     extract_address_parts (address t) (cs (m_L2 m)) (cb (m_L2 m)) = Some (tg2, si2, off2) \<and>
     find_line (m_L2 m) si2 tg2 = Some (Miss v2) \<and>
     step m t = Some m' \<longrightarrow>
       l1_miss (m_load_res m') = 1 \<and> l2_miss (m_load_res m') = 1 \<and>
       placed_in_l1 (m_load_res m') = 1 \<and> placed_in_l2 (m_load_res m') = 1 \<and>
       l1_hit (m_load_res m') = 0 \<and> l2_hit (m_load_res m') = 0 \<and>
       l1_hit (m_store_res m') = 1 \<and> l2_hit (m_store_res m') = 1 \<and>
       l1_miss (m_store_res m') = 0 \<and> l2_miss (m_store_res m') = 0 \<and>
       m_L1D_miss m' = m_L1D_miss m + 1 \<and> m_L1D_hit m' = m_L1D_hit m + 1 \<and>
       m_L2_miss m' = m_L2_miss m + 1 \<and> m_L2_hit m' = m_L2_hit m + 1"
    by (rule impI)
qed

theorem modify_is_load_then_store_witness:
  "\<exists>m'. step demo_machine (modify_op 5 [0xAA]) = Some m' \<and>
     find_line (m_L1D demo_machine) 1 0 = Some (Miss 0) \<and>
     find_line (m_L2 demo_machine) 0 0 = Some (Miss 0) \<and>
     l1_miss (m_load_res m') = 1 \<and> l2_miss (m_load_res m') = 1 \<and>
     placed_in_l1 (m_load_res m') = 1 \<and> placed_in_l2 (m_load_res m') = 1 \<and>
     l1_hit (m_store_res m') = 1 \<and> l2_hit (m_store_res m') = 1 \<and>
     m_L1D_miss m' = 1 \<and> m_L1D_hit m' = 1 \<and> m_L2_miss m' = 1 \<and> m_L2_hit m' = 1"
proof -
  have "\<not> Option.is_none (step demo_machine (modify_op 5 [0xAA]))" by code_simp
  then obtain m' where s: "step demo_machine (modify_op 5 [0xAA]) = Some m'"
    by (auto simp: Option.is_none_def)
  have o: "op (modify_op 5 [0xAA]) = MODIFY" by (simp add: modify_op_def)
  have r: "run demo_machine [] = Some demo_machine" by simp
  have e1: "extract_address_parts (address (modify_op 5 [0xAA])) (cs (m_L1D demo_machine))
      (cb (m_L1D demo_machine)) = Some (0, 1, 1)"
    by code_simp
  have f1: "find_line (m_L1D demo_machine) 1 0 = Some (Miss 0)" by code_simp
  have e2: "extract_address_parts (address (modify_op 5 [0xAA])) (cs (m_L2 demo_machine))
      (cb (m_L2 demo_machine)) = Some (0, 0, 5)"
    by code_simp
  have f2: "find_line (m_L2 demo_machine) 0 0 = Some (Miss 0)" by code_simp
  have z: "m_L1D_miss demo_machine = 0" "m_L1D_hit demo_machine = 0"
    "m_L2_miss demo_machine = 0" "m_L2_hit demo_machine = 0"
    by (simp_all add: demo_machine_def)
  note th = modify_is_load_then_store [OF o, of demo_machine "\<lambda>_ _ _. 0" "\<lambda>_ _ _. 0" "\<lambda>_ _ _. 0"
      1 2 2 1 2 3 ram32 demo_machine "[]" 0 1 1 0 0 0 5 0 m', THEN conjunct2]
  have "l1_miss (m_load_res m') = 1 \<and> l2_miss (m_load_res m') = 1 \<and>
     placed_in_l1 (m_load_res m') = 1 \<and> placed_in_l2 (m_load_res m') = 1 \<and>
     l1_hit (m_store_res m') = 1 \<and> l2_hit (m_store_res m') = 1 \<and>
     m_L1D_miss m' = 1 \<and> m_L1D_hit m' = 1 \<and> m_L2_miss m' = 1 \<and> m_L2_hit m' = 1"
    using th demo_machine_init r e1 f1 e2 f2 s z by simp
  with s f1 f2 show ?thesis by blast
qed

section \<open>Blocks of the backing store\<close>

lemma agree_outside_refl: "agree_outside ram ram A n"
  by (simp add: agree_outside_def)

lemma block_other:
  assumes ag: "agree_outside ram ram' A n"
    and dj: "base + B \<le> A \<or> A + n \<le> base"
    and inr: "base + B \<le> length ram"
  shows "take B (drop base ram') = take B (drop base ram)"
proof (rule nth_equalityI)
  from ag have len: "length ram' = length ram" by (simp add: agree_outside_def)
  then show "length (take B (drop base ram')) = length (take B (drop base ram))" by simp
  fix q assume "q < length (take B (drop base ram'))"
  then have q: "q < B" "base + q < length ram" using len by auto
  with dj have "base + q < A \<or> A + n \<le> base + q" by linarith
  with ag q have "ram' ! (base + q) = ram ! (base + q)" unfolding agree_outside_def by blast
  with q len show "take B (drop base ram') ! q = take B (drop base ram) ! q" by simp
qed

lemma block_cover:
  assumes ag: "agree_outside R ram' A n" and wr: "written ram' A db n"
    and ba: "base \<le> A" "A + n \<le> base + B" and inr: "base + B \<le> length ram'"
    and mc: "memcpy (take B (drop base R)) (A - base) db n = Some blk'"
  shows "blk' = take B (drop base ram')"
proof (rule nth_equalityI)
  from ag have len: "length ram' = length R" by (simp add: agree_outside_def)
  have lb: "length (take B (drop base R)) = B" using inr len by simp
  show l: "length blk' = length (take B (drop base ram'))"
    using memcpy_length [OF mc] lb inr by simp
  fix q assume "q < length blk'"
  then have q: "q < B" using l inr by simp
  show "blk' ! q = take B (drop base ram') ! q"
  proof (cases "A - base \<le> q \<and> q < A - base + n")
    case True
    then have "blk' ! q = db ! (q - (A - base))" using memcpy_nth_inside [OF mc, of q] by simp
    moreover from True ba have "base + q = A + (q - (A - base))" "q - (A - base) < n" by auto
    moreover from this wr have "ram' ! (A + (q - (A - base))) = db ! (q - (A - base))"
      unfolding written_def by blast
    ultimately show ?thesis using q inr by simp
  next
    case False
    then have o: "q < A - base \<or> A - base + n \<le> q" by auto
    then have "blk' ! q = take B (drop base R) ! q"
      using memcpy_nth_outside [OF mc, of q] q lb by simp
    from o ba have "base + q < A \<or> A + n \<le> base + q" by auto
    moreover have "base + q < length R" using q inr len by simp
    ultimately have "ram' ! (base + q) = R ! (base + q)"
      using ag unfolding agree_outside_def by blast
    with \<open>blk' ! q = take B (drop base R) ! q\<close> show ?thesis using q inr len by simp
  qed
qed

text \<open>The parts of a decoded address, as numbers.\<close>

lemma extract_address_parts_SomeD:
  assumes "extract_address_parts a s b = Some (tg, si, off)"
  shows "0 \<le> s" "0 \<le> b" "s < 31" "b < 31" "b + s < 32"
    and "unat off = unat a mod 2 ^ nat b"
    and "unat si = (unat a div 2 ^ nat b) mod 2 ^ nat s"
    and "unat tg = unat a div 2 ^ (nat b + nat s)"
proof -
  from assms show r: "0 \<le> s" "0 \<le> b" "s < 31" "b < 31" "b + s < 32"
    by (auto simp: extract_address_parts_def split: if_splits)
  from assms r have p: "off = a AND mask (nat b)" "si = drop_bit (nat b) a AND mask (nat s)"
    "tg = drop_bit (nat (b + s)) a"
    by (auto simp: extract_address_parts_def Let_def mask_eq_decr_exp push_bit_of_1 split: if_splits)
  show "unat off = unat a mod 2 ^ nat b" unfolding p by (rule unat_and_mask)
  show "unat si = (unat a div 2 ^ nat b) mod 2 ^ nat s"
    unfolding p by (simp only: unat_and_mask unat_drop_bit)
  show "unat tg = unat a div 2 ^ (nat b + nat s)"
    unfolding p using r by (simp only: unat_drop_bit nat_add_distrib)
qed

lemma block_number:
  fixes x :: nat
  shows "(x div 2 ^ (b + s)) * 2 ^ s + (x div 2 ^ b) mod 2 ^ s = x div 2 ^ b"
proof -
  have "x div 2 ^ (b + s) = (x div 2 ^ b) div 2 ^ s"
    by (simp add: power_add div_mult2_eq)
  then show ?thesis by (simp only: div_mult_mod_eq)
qed

lemma block_start_nat:
  "unat ((a::u32) AND NOT (push_bit b 1 - 1)) = (unat a div 2 ^ b) * 2 ^ b"
  by (simp only: pow2_word_minus1 unat_and_not_mask minus_mod_eq_div_mult)

section \<open>Lines and the backing store\<close>

lemma coherent_nth:
  "coherent c ram \<longleftrightarrow>
     (\<forall>k < length (sets c). \<forall>j < length (lines (sets c ! k)).
        line_coherent c ram k (lines (sets c ! k) ! j))"
  unfolding coherent_def all_set_conv_all_nth by auto

lemma memcpy_SomeD:
  "memcpy dst off src n = Some d \<Longrightarrow> off + n \<le> length dst \<and> n \<le> length src"
  by (simp add: memcpy_def split: if_splits)

lemma line_coherent_geom:
  "cs c' = cs c \<Longrightarrow> cb c' = cb c \<Longrightarrow> cB c' = cB c \<Longrightarrow>
     line_coherent c' ram k ln = line_coherent c ram k ln"
  by (simp add: line_coherent_def line_base_def)

lemma geometry:
  assumes sh: "shaped c" and e: "extract_address_parts a (cs c) (cb c) = Some (tg, si, off)"
  shows "unat (cB c) = 2 ^ nat (cb c)"
    and "unat si < length (sets c)"
    and "unat (a AND NOT (cB c - 1)) = (unat a div 2 ^ nat (cb c)) * 2 ^ nat (cb c)"
    and "unat (a AND (cB c - 1)) = unat a mod 2 ^ nat (cb c)"
    and "unat tg * 2 ^ nat (cs c) + unat si = unat a div 2 ^ nat (cb c)"
proof -
  note d = extract_address_parts_SomeD [OF e]
  from sh have B: "cB c = push_bit (nat (cb c)) 1" and S: "length (sets c) = 2 ^ nat (cs c)"
    by (simp_all add: shaped_def)
  from d have "nat (cb c) < 32" by simp
  then show "unat (cB c) = 2 ^ nat (cb c)" unfolding B by (rule unat_pow2)
  show "unat si < length (sets c)" unfolding S d(7) by simp
  show "unat (a AND NOT (cB c - 1)) = (unat a div 2 ^ nat (cb c)) * 2 ^ nat (cb c)"
    unfolding B by (rule block_start_nat)
  show "unat (a AND (cB c - 1)) = unat a mod 2 ^ nat (cb c)"
    unfolding B pow2_word_minus1 by (rule unat_and_mask)
  show "unat tg * 2 ^ nat (cs c) + unat si = unat a div 2 ^ nat (cb c)"
    unfolding d(7) d(8) by (rule block_number)
qed

lemma other_line_coherent:
  assumes sh: "shaped c" and e: "extract_address_parts a (cs c) (cb c) = Some (tg, si, off)"
    and k: "k < length (sets c)" and lc: "line_coherent c ram k ln"
    and ne: "valid ln \<noteq> 0 \<longrightarrow> tag ln \<noteq> tg \<or> k \<noteq> unat si"
    and ag: "agree_outside ram ram' (unat a) n"
    and fit: "unat a mod 2 ^ nat (cb c) + n \<le> 2 ^ nat (cb c)"
  shows "line_coherent c ram' k ln"
proof (cases "valid ln = 0")
  case True
  then show ?thesis by (simp add: line_coherent_def)
next
  case False
  let ?b = "nat (cb c)" and ?s = "nat (cs c)"
  let ?x = "unat (tag ln) * 2 ^ ?s + k" and ?y = "unat a div 2 ^ ?b"
  note g = geometry [OF sh e]
  from sh k have ks: "k < 2 ^ ?s" by (simp add: shaped_def)
  from sh g(2) have ss: "unat si < 2 ^ ?s" by (simp add: shaped_def)
  have xy: "?x \<noteq> ?y"
  proof
    assume eq: "?x = ?y"
    then have eq': "unat (tag ln) * 2 ^ ?s + k = unat tg * 2 ^ ?s + unat si" using g(5) by simp
    from arg_cong [OF eq', of "\<lambda>z. z mod 2 ^ ?s"] ks ss have "k = unat si" by simp
    moreover from arg_cong [OF eq', of "\<lambda>z. z div 2 ^ ?s"] ks ss have "unat (tag ln) = unat tg" by simp
    ultimately show False using ne False by (simp add: word_unat_eq_iff)
  qed
  have A: "unat a = ?y * 2 ^ ?b + unat a mod 2 ^ ?b" by (rule div_mult_mod_eq [symmetric])
  have dj: "?x * 2 ^ ?b + 2 ^ ?b \<le> unat a \<or> unat a + n \<le> ?x * 2 ^ ?b"
  proof (cases "?x < ?y")
    case True
    then have "(?x + 1) * 2 ^ ?b \<le> ?y * 2 ^ ?b" by (intro mult_le_mono1) simp
    moreover have "(?x + 1) * 2 ^ ?b = ?x * 2 ^ ?b + 2 ^ ?b" by (simp add: add_mult_distrib)
    ultimately show ?thesis using A by linarith
  next
    case False
    with xy have "?y + 1 \<le> ?x" by simp
    then have "(?y + 1) * 2 ^ ?b \<le> ?x * 2 ^ ?b" by (intro mult_le_mono1)
    moreover have "(?y + 1) * 2 ^ ?b = ?y * 2 ^ ?b + 2 ^ ?b" by (simp add: add_mult_distrib)
    ultimately show ?thesis using A fit by linarith
  qed
  from lc False have inr: "line_base c k ln + unat (cB c) \<le> length ram"
    and bl: "block ln = take (unat (cB c)) (drop (line_base c k ln) ram)"
    by (simp_all add: line_coherent_def)
  from ag have len: "length ram' = length ram" by (simp add: agree_outside_def)
  have "take (unat (cB c)) (drop (line_base c k ln) ram') = take (unat (cB c)) (drop (line_base c k ln) ram)"
    using dj inr unfolding g(1) line_base_def by (intro block_other [OF ag]) simp_all
  with inr bl len show ?thesis by (simp add: line_coherent_def)
qed

lemma covering_line_coherent:
  assumes sh: "shaped c" and e: "extract_address_parts a (cs c) (cb c) = Some (tg, si, off)"
    and ag: "agree_outside R ram' (unat a) n" and wr: "written ram' (unat a) db n"
    and inr: "(unat a div 2 ^ nat (cb c) + 1) * 2 ^ nat (cb c) \<le> length ram'"
    and t: "tag ln = tg"
    and mc: "memcpy (take (unat (cB c)) (drop (line_base c (unat si) ln) R)) (unat (a AND (cB c - 1))) db n
               = Some (block ln)"
  shows "line_coherent c ram' (unat si) ln"
proof -
  let ?b = "nat (cb c)"
  note g = geometry [OF sh e]
  have base: "line_base c (unat si) ln = (unat a div 2 ^ ?b) * 2 ^ ?b"
    unfolding line_base_def t g(5) ..
  have A: "unat a = (unat a div 2 ^ ?b) * 2 ^ ?b + unat a mod 2 ^ ?b"
    by (rule div_mult_mod_eq [symmetric])
  from ag have len: "length ram' = length R" by (simp add: agree_outside_def)
  have inr': "line_base c (unat si) ln + unat (cB c) \<le> length ram'"
    unfolding base g(1) using inr by (simp add: add_mult_distrib)
  have lb: "length (take (unat (cB c)) (drop (line_base c (unat si) ln) R)) = unat (cB c)"
    using inr' len by simp
  from memcpy_SomeD [OF mc] have fit: "unat a mod 2 ^ ?b + n \<le> 2 ^ ?b"
    unfolding lb g(4) g(1) by simp
  have off: "unat (a AND (cB c - 1)) = unat a - line_base c (unat si) ln"
    unfolding g(4) base using A by linarith
  have "block ln = take (unat (cB c)) (drop (line_base c (unat si) ln) ram')"
  proof (rule block_cover [OF ag wr _ _ inr'])
    show "line_base c (unat si) ln \<le> unat a" unfolding base using A by linarith
    show "unat a + n \<le> line_base c (unat si) ln + unat (cB c)"
      unfolding base g(1) using A fit by linarith
    show "memcpy (take (unat (cB c)) (drop (line_base c (unat si) ln) R))
        (unat a - line_base c (unat si) ln) db n = Some (block ln)"
      using mc unfolding off .
  qed
  with inr' show ?thesis by (simp add: line_coherent_def)
qed

lemma miss_no_match:
  assumes g: "no_gap ls" and r: "resolved ls (int (length ls)) tg 0 (Miss v)"
    and j: "j < length ls" "valid (ls ! j) \<noteq> 0"
  shows "tag (ls ! j) \<noteq> tg"
proof (cases "j = nat v")
  case False
  with miss_no_other_match [OF g r j(1) _ j(2)] show ?thesis by simp
next
  case True
  from r have "0 \<le> v" "valid (ls ! nat v) = 0 \<or> scan_clear ls tg 0 (int (length ls))"
    by (auto simp: resolved_def)
  with True j show ?thesis using scan_clear_nat [of ls tg "length ls" j] by auto
qed

lemma line_base_block [simp]: "line_base c k (ln\<lparr>block := blk\<rparr>) = line_base c k ln"
  by (simp add: line_base_def)

lemma coherent_put_line:
  assumes si: "unat si < length (sets c)" and i: "0 \<le> i"
    and oth: "\<And>k j. k < length (sets c) \<Longrightarrow> j < length (lines (sets c ! k)) \<Longrightarrow>
        k \<noteq> unat si \<or> j \<noteq> nat i \<Longrightarrow> line_coherent c ram' k (lines (sets c ! k) ! j)"
    and new: "line_coherent c ram' (unat si) ln"
  shows "coherent (put_line c si i ln) ram'"
  unfolding coherent_nth
proof (intro allI impI)
  fix k j
  assume k: "k < length (sets (put_line c si i ln))"
    and j: "j < length (lines (sets (put_line c si i ln) ! k))"
  from k have k': "k < length (sets c)" by simp
  have g: "line_coherent (put_line c si i ln) ram' k' x = line_coherent c ram' k' x" for k' x
    by (rule line_coherent_geom) simp_all
  show "line_coherent (put_line c si i ln) ram' k (lines (sets (put_line c si i ln) ! k) ! j)"
  proof (cases "k = unat si \<and> j = nat i")
    case True
    with j k' new show ?thesis by (simp add: g lines_put_line)
  next
    case False
    with j k' have j': "j < length (lines (sets c ! k))"
      by (auto simp: lines_put_line split: if_splits)
    from False k' j' have "lines (sets (put_line c si i ln) ! k) ! j = lines (sets c ! k) ! j"
      by (auto simp: lines_put_line)
    with oth [OF k' j'] False show ?thesis by (simp add: g)
  qed
qed

lemma coherent_fifo_time [simp]: "coherent (c\<lparr>fifo_time := x\<rparr>) ram = coherent c ram"
  by (simp add: coherent_def line_coherent_def line_base_def)

lemma fill_line_coherent:
  assumes inv: "cache_inv c" and e: "extract_address_parts a (cs c) (cb c) = Some (tg, si, off)"
    and f: "find_line c si tg = Some (Miss v)" and coh: "coherent c ram"
    and fl: "fill_line c si v tg ram a = Some c'"
    and inr: "(unat a div 2 ^ nat (cb c) + 1) * 2 ^ nat (cb c) \<le> length ram"
  shows "coherent c' ram"
proof -
  from fl obtain old blk where old: "line_at c si v = Some old"
    and rd: "read_block_from_ram ram a (block old) (cB c) = Some blk"
    and c': "c' = (put_line c si v \<lparr>valid = 1, tag = tg, fifo_counter = fifo_time c, block = blk\<rparr>)
            \<lparr>fifo_time := fifo_time c + 1\<rparr>"
    by (rule fill_line_SomeD)
  let ?ln = "\<lparr>valid = 1, tag = tg, fifo_counter = fifo_time c, block = blk\<rparr>"
  let ?ls = "lines (sets c ! unat si)"
  from inv have sh: "shaped c" by (simp add: cache_inv_def)
  note g = geometry [OF sh e]
  from line_at_SomeD [OF old] have o: "0 \<le> v" "nat v < length ?ls" "old = ?ls ! nat v" by auto
  then have "old \<in> set ?ls" by simp
  with sh g(2) have lo: "length (block old) = unat (cB c)" by (simp add: shaped_def)
  have base: "line_base c (unat si) ?ln = (unat a div 2 ^ nat (cb c)) * 2 ^ nat (cb c)"
    by (simp add: line_base_def g(5))
  have inr': "(unat a div 2 ^ nat (cb c)) * 2 ^ nat (cb c) + unat (cB c) \<le> length ram"
    using inr unfolding g(1) by (simp add: add_mult_distrib)
  have "blk = take (unat (cB c)) (drop ((unat a div 2 ^ nat (cb c)) * 2 ^ nat (cb c)) ram)"
    using rd fread_buf_full [OF inr' lo] unfolding read_block_from_ram_def g(3) by simp
  with inr' base have new: "line_coherent c ram (unat si) ?ln" by (simp add: line_coherent_def)
  have "coherent (put_line c si v ?ln) ram"
  proof (rule coherent_put_line [OF g(2) o(1) _ new])
    fix k j assume "k < length (sets c)" "j < length (lines (sets c ! k))"
    with coh show "line_coherent c ram k (lines (sets c ! k) ! j)" by (simp add: coherent_nth)
  qed
  then show ?thesis unfolding c' by simp
qed

lemma miss_coherent:
  assumes inv: "cache_inv c" and e: "extract_address_parts a (cs c) (cb c) = Some (tg, si, off)"
    and f: "find_line c si tg = Some (Miss v)" and coh: "coherent c ram"
    and ag: "agree_outside ram ram' (unat a) n"
    and fit: "unat a mod 2 ^ nat (cb c) + n \<le> 2 ^ nat (cb c)"
  shows "coherent c ram'"
  unfolding coherent_nth
proof (intro allI impI)
  fix k j assume k: "k < length (sets c)" and j: "j < length (lines (sets c ! k))"
  let ?ln = "lines (sets c ! k) ! j"
  from inv have sh: "shaped c" by (simp add: cache_inv_def)
  note fs = find_line_shaped [OF sh f]
  from coh k j have lc: "line_coherent c ram k ?ln" by (simp add: coherent_nth)
  have "tag ?ln \<noteq> tg \<or> k \<noteq> unat si" if v: "valid ?ln \<noteq> 0"
  proof (cases "k = unat si")
    case True
    from inv fs(1) have "no_gap (lines (sets c ! unat si))" by (simp add: cache_inv_def)
    from miss_no_match [OF this fs(4)] j v True show ?thesis by simp
  qed simp
  then show "line_coherent c ram' k ?ln"
    by (intro other_line_coherent [OF sh e k lc _ ag fit]) simp
qed

lemma hit_line:
  assumes sh: "shaped c" and f: "find_line c si tg = Some (Hit i)"
  shows "0 \<le> i" "nat i < length (lines (sets c ! unat si))"
    "valid (lines (sets c ! unat si) ! nat i) \<noteq> 0" "tag (lines (sets c ! unat si) ! nat i) = tg"
  using find_line_shaped(4) [OF sh f] by (auto simp: resolved_def)

lemma store_line_coherent:
  assumes inv: "cache_inv c" and e: "extract_address_parts a (cs c) (cb c) = Some (tg, si, off)"
    and f: "find_line c si tg = Some (Hit i)" and coh: "coherent c ram"
    and st: "store_line c si i (a AND (cB c - 1)) db n = Some c'"
    and ag: "agree_outside ram ram' (unat a) n" and wr: "written ram' (unat a) db n"
  shows "coherent c' ram'"
proof -
  from st obtain old blk where old: "line_at c si i = Some old"
    and mc: "memcpy (block old) (unat (a AND (cB c - 1))) db n = Some blk"
    and c': "c' = put_line c si i (old\<lparr>block := blk\<rparr>)"
    by (rule store_line_SomeD)
  let ?ls = "lines (sets c ! unat si)"
  from inv have sh: "shaped c" by (simp add: cache_inv_def)
  note g = geometry [OF sh e] and h = hit_line [OF sh f]
  from line_at_SomeD [OF old] have o: "old = ?ls ! nat i" by simp
  from h(2) o have "old \<in> set ?ls" by simp
  with sh g(2) have lo: "length (block old) = unat (cB c)" by (simp add: shaped_def)
  from memcpy_SomeD [OF mc] have fit: "unat a mod 2 ^ nat (cb c) + n \<le> 2 ^ nat (cb c)"
    unfolding lo g(4) g(1) by simp
  from ag have len: "length ram' = length ram" by (simp add: agree_outside_def)
  from coh g(2) h(2) have "line_coherent c ram (unat si) old" unfolding o by (simp add: coherent_nth)
  with h(3) o have ib: "line_base c (unat si) old + unat (cB c) \<le> length ram"
    and bo: "block old = take (unat (cB c)) (drop (line_base c (unat si) old) ram)"
    by (simp_all add: line_coherent_def)
  have base: "line_base c (unat si) old = (unat a div 2 ^ nat (cb c)) * 2 ^ nat (cb c)"
    using h(4) o by (simp add: line_base_def g(5))
  have inr: "(unat a div 2 ^ nat (cb c) + 1) * 2 ^ nat (cb c) \<le> length ram'"
    using ib unfolding base g(1) len by (simp add: add_mult_distrib)
  have new: "line_coherent c ram' (unat si) (old\<lparr>block := blk\<rparr>)"
  proof (rule covering_line_coherent [OF sh e ag wr inr])
    show "tag (old\<lparr>block := blk\<rparr>) = tg" using h(4) o by simp
    show "memcpy (take (unat (cB c)) (drop (line_base c (unat si) (old\<lparr>block := blk\<rparr>)) ram))
        (unat (a AND (cB c - 1))) db n = Some (block (old\<lparr>block := blk\<rparr>))"
      using mc bo by simp
  qed
  show ?thesis
    unfolding c'
  proof (rule coherent_put_line [OF g(2) h(1) _ new])
    fix k j assume k: "k < length (sets c)" and j: "j < length (lines (sets c ! k))"
      and ne: "k \<noteq> unat si \<or> j \<noteq> nat i"
    let ?ln = "lines (sets c ! k) ! j"
    from coh k j have lc: "line_coherent c ram k ?ln" by (simp add: coherent_nth)
    have "tag ?ln \<noteq> tg \<or> k \<noteq> unat si" if v: "valid ?ln \<noteq> 0"
    proof (cases "k = unat si")
      case True
      from inv g(2) have "tags_distinct ?ls" by (simp add: cache_inv_def)
      with True ne j v h show ?thesis unfolding tags_distinct_def by metis
    qed simp
    then show "line_coherent c ram' k ?ln"
      by (intro other_line_coherent [OF sh e k lc _ ag fit]) simp
  qed
qed

lemma fill_store_coherent:
  assumes inv: "cache_inv c" and e: "extract_address_parts a (cs c) (cb c) = Some (tg, si, off)"
    and f: "find_line c si tg = Some (Miss v)" and coh: "coherent c ram"
    and fl: "fill_line c si v tg R a = Some c1"
    and st: "store_line c1 si v (a AND (cB c - 1)) db n = Some c'"
    and agR: "agree_outside R ram' (unat a) n"
    and ag: "agree_outside ram ram' (unat a) n" and wr: "written ram' (unat a) db n"
    and inr: "(unat a div 2 ^ nat (cb c) + 1) * 2 ^ nat (cb c) \<le> length ram'"
  shows "coherent c' ram'"
proof -
  from fl obtain old blk where old: "line_at c si v = Some old"
    and rd: "read_block_from_ram R a (block old) (cB c) = Some blk"
    and c1: "c1 = (put_line c si v \<lparr>valid = 1, tag = tg, fifo_counter = fifo_time c, block = blk\<rparr>)
            \<lparr>fifo_time := fifo_time c + 1\<rparr>"
    by (rule fill_line_SomeD)
  let ?ln = "\<lparr>valid = 1, tag = tg, fifo_counter = fifo_time c, block = blk\<rparr>"
  let ?ls = "lines (sets c ! unat si)"
  from inv have sh: "shaped c" by (simp add: cache_inv_def)
  note g = geometry [OF sh e] and fs = find_line_shaped [OF sh f]
  from line_at_SomeD [OF old] have o: "0 \<le> v" "nat v < length ?ls" "old = ?ls ! nat v" by auto
  then have "old \<in> set ?ls" by simp
  with sh g(2) have lo: "length (block old) = unat (cB c)" by (simp add: shaped_def)
  from agR have lenR: "length ram' = length R" by (simp add: agree_outside_def)
  have base: "line_base c (unat si) x = (unat a div 2 ^ nat (cb c)) * 2 ^ nat (cb c)"
    if "tag x = tg" for x
    using that by (simp add: line_base_def g(5))
  have inr': "(unat a div 2 ^ nat (cb c)) * 2 ^ nat (cb c) + unat (cB c) \<le> length R"
    using inr unfolding g(1) lenR by (simp add: add_mult_distrib)
  have blk0: "blk = take (unat (cB c)) (drop ((unat a div 2 ^ nat (cb c)) * 2 ^ nat (cb c)) R)"
    using rd fread_buf_full [OF inr' lo] unfolding read_block_from_ram_def g(3) by simp
  moreover have "line_base c (unat si) ?ln = (unat a div 2 ^ nat (cb c)) * 2 ^ nat (cb c)"
    by (rule base) simp
  ultimately have blk: "blk = take (unat (cB c)) (drop (line_base c (unat si) ?ln) R)"
    by (simp only:)
  have l1: "line_at c1 si v = Some ?ln"
    unfolding c1 using g(2) o by (simp add: line_at_def lines_put_line)
  from st obtain old' blk' where "line_at c1 si v = Some old'"
    and mc': "memcpy (block old') (unat (a AND (cB c - 1))) db n = Some blk'"
    and c'': "c' = put_line c1 si v (old'\<lparr>block := blk'\<rparr>)"
    by (rule store_line_SomeD)
  with l1 have mc: "memcpy blk (unat (a AND (cB c - 1))) db n = Some blk'"
    and c': "c' = put_line c1 si v (?ln\<lparr>block := blk'\<rparr>)" by auto
  have lb: "length blk = unat (cB c)"
    using \<open>blk = take (unat (cB c)) (drop ((unat a div 2 ^ nat (cb c)) * 2 ^ nat (cb c)) R)\<close> inr'
    by simp
  from memcpy_SomeD [OF mc] have fit: "unat a mod 2 ^ nat (cb c) + n \<le> 2 ^ nat (cb c)"
    unfolding lb g(4) g(1) by simp
  have new: "line_coherent c ram' (unat si) (?ln\<lparr>block := blk'\<rparr>)"
  proof (rule covering_line_coherent [OF sh e agR wr inr])
    show "tag (?ln\<lparr>block := blk'\<rparr>) = tg" by simp
    show "memcpy (take (unat (cB c)) (drop (line_base c (unat si) (?ln\<lparr>block := blk'\<rparr>)) R))
        (unat (a AND (cB c - 1))) db n = Some (block (?ln\<lparr>block := blk'\<rparr>))"
      using mc unfolding blk0 by (simp add: base)
  qed
  have eq: "c' = (put_line c si v (?ln\<lparr>block := blk'\<rparr>))\<lparr>fifo_time := fifo_time c + 1\<rparr>"
    unfolding c' c1 using g(2) by (simp add: put_line_def)
  have "coherent (put_line c si v (?ln\<lparr>block := blk'\<rparr>)) ram'"
  proof (rule coherent_put_line [OF g(2) o(1) _ new])
    fix k j assume k: "k < length (sets c)" and j: "j < length (lines (sets c ! k))"
      and ne: "k \<noteq> unat si \<or> j \<noteq> nat v"
    let ?l = "lines (sets c ! k) ! j"
    from coh k j have lc: "line_coherent c ram k ?l" by (simp add: coherent_nth)
    have "tag ?l \<noteq> tg \<or> k \<noteq> unat si" if vl: "valid ?l \<noteq> 0"
    proof (cases "k = unat si")
      case True
      from inv g(2) have "no_gap ?ls" by (simp add: cache_inv_def)
      from miss_no_match [OF this fs(4)] j vl True show ?thesis by simp
    qed simp
    then show "line_coherent c ram' k ?l"
      by (intro other_line_coherent [OF sh e k lc _ ag fit]) simp
  qed
  then show ?thesis unfolding eq by simp
qed

lemma store_l2_coherent:
  assumes inv: "cache_inv (L2 c)" and coh: "coherent (L2 c) ram"
    and s: "store_l2 c a db n r = Some (c', r')"
    and agR: "agree_outside (ram_fp c) ram' (unat a) n"
    and ag: "agree_outside ram ram' (unat a) n" and wr: "written ram' (unat a) db n"
    and inr: "(unat a div 2 ^ nat (cb (L2 c)) + 1) * 2 ^ nat (cb (L2 c)) \<le> length ram'"
  shows "coherent (L2 c') ram'"
  using s
proof (cases rule: store_l2_cases)
  case (hit tg si off i l2')
  from store_line_coherent [OF inv hit(1,2) coh hit(3) ag wr] hit(4) show ?thesis by simp
next
  case (miss tg si off v old l2' l2'')
  from fill_store_coherent [OF inv miss(1,2) coh miss(4,5) agR ag wr inr] miss(6)
  show ?thesis by simp
qed

lemma write_block_to_ram_agree:
  assumes sh: "shaped c" and e: "extract_address_parts a (cs c) (cb c) = Some (tg, si, off)"
    and w: "write_block_to_ram ram a db n (cB c) = Some ram'"
    and fit: "unat a mod 2 ^ nat (cb c) + n \<le> 2 ^ nat (cb c)"
    and inr: "(unat a div 2 ^ nat (cb c) + 1) * 2 ^ nat (cb c) \<le> length ram"
  shows "agree_outside ram ram' (unat a) n" and "written ram' (unat a) db n"
proof -
  note g = geometry [OF sh e]
  have A: "unat a = (unat a div 2 ^ nat (cb c)) * 2 ^ nat (cb c) + unat a mod 2 ^ nat (cb c)"
    by (rule div_mult_mod_eq [symmetric])
  have i: "unat (a AND NOT (cB c - 1)) + unat (cB c) \<le> length ram"
    unfolding g(1) g(3) using inr by (simp add: add_mult_distrib)
  have f: "unat a - unat (a AND NOT (cB c - 1)) + n \<le> unat (cB c)"
    unfolding g(1) g(3) using fit A by linarith
  from write_block_to_ram_frame [OF w] write_block_to_ram_length [OF w i]
  show "agree_outside ram ram' (unat a) n" by (simp add: agree_outside_def)
  from write_block_to_ram_written [OF w f]
  show "written ram' (unat a) db n" by (simp add: written_def)
qed

lemma store_l2_geom:
  "store_l2 c a db n r = Some (c', r') \<Longrightarrow> cb (L2 c') = cb (L2 c) \<and> cs (L2 c') = cs (L2 c)"
proof (erule store_l2_cases)
  fix tg si off i l2'
  assume "store_line (L2 c) si i (a AND cB (L2 c) - 1) db n = Some l2'"
    "c' = c\<lparr>L2 := l2', L2_hit := L2_hit c + 1\<rparr>"
  then show "cb (L2 c') = cb (L2 c) \<and> cs (L2 c') = cs (L2 c)"
    by (elim store_line_SomeD) simp
next
  fix tg si off v old l2' l2''
  assume "fill_line (L2 c) si v tg (ram_fp c) a = Some l2'"
    "store_line l2' si v (a AND cB (L2 c) - 1) db n = Some l2''"
    "c' = c\<lparr>L2 := l2'', L2_miss := L2_miss c + 1,
            L2_evict := if valid old \<noteq> 0 then L2_evict c + 1 else L2_evict c\<rparr>"
  then show "cb (L2 c') = cb (L2 c) \<and> cs (L2 c') = cs (L2 c)"
    by (elim store_line_SomeD fill_line_SomeD) simp
qed

lemma store_line_finds:
  "store_line c si i off db n = Some c' \<Longrightarrow> cB c' = cB c \<and> cs c' = cs c \<and> cb c' = cb c \<and> cE c' = cE c"
  by (erule store_line_SomeD) simp

lemma access_load_geom:
  assumes "access_load c a r = Some (c', r')"
  shows "cb (L1 c') = cb (L1 c) \<and> cb (L2 c') = cb (L2 c) \<and> ram_fp c' = ram_fp c"
  using assms
proof (cases rule: access_load_cases)
  case (hit tg si off i)
  then show ?thesis by simp
next
  case (miss_hit tg si off v tg2 si2 off2 i2 old l1')
  with fill_line_finds [OF miss_hit(6)] show ?thesis by simp
next
  case (miss_miss tg si off v tg2 si2 off2 v2 old2 l2' old l1')
  with fill_line_finds [OF miss_miss(6)] fill_line_finds [OF miss_miss(8)] show ?thesis by simp
qed

lemma access_load_coherent:
  assumes inv1: "cache_inv (L1 c)" and inv2: "cache_inv (L2 c)"
    and coh2: "coherent (L2 c) (ram_fp c)"
    and a: "access_load c addr r = Some (c', r')"
    and inr1: "(unat addr div 2 ^ nat (cb (L1 c)) + 1) * 2 ^ nat (cb (L1 c)) \<le> length (ram_fp c)"
    and inr2: "(unat addr div 2 ^ nat (cb (L2 c)) + 1) * 2 ^ nat (cb (L2 c)) \<le> length (ram_fp c)"
  shows "coherent (L2 c') (ram_fp c') \<and>
    (coherent (L1 c) (ram_fp c) \<longrightarrow> coherent (L1 c') (ram_fp c'))"
  using a
proof (cases rule: access_load_cases)
  case (hit tg si off i)
  with coh2 show ?thesis by simp
next
  case (miss_hit tg si off v tg2 si2 off2 i2 old l1')
  have "coherent l1' (ram_fp c)" if "coherent (L1 c) (ram_fp c)"
    by (rule fill_line_coherent [OF inv1 miss_hit(1,2) that miss_hit(6) inr1])
  with coh2 miss_hit(7) show ?thesis by simp
next
  case (miss_miss tg si off v tg2 si2 off2 v2 old2 l2' old l1')
  have "coherent l1' (ram_fp c)" if "coherent (L1 c) (ram_fp c)"
    by (rule fill_line_coherent [OF inv1 miss_miss(1,2) that miss_miss(8) inr1])
  moreover have "coherent l2' (ram_fp c)"
    by (rule fill_line_coherent [OF inv2 miss_miss(3,4) coh2 miss_miss(6) inr2])
  ultimately show ?thesis using miss_miss(9) by simp
qed

lemma access_store_coherent:
  assumes inv1: "cache_inv (L1 c)" and inv2: "cache_inv (L2 c)"
    and coh1: "coherent (L1 c) (ram_fp c)" and coh2: "coherent (L2 c) (ram_fp c)"
    and s: "access_store c addr t r = Some (c', r')"
    and fit: "unat addr mod 2 ^ nat (cb (L1 c)) + length (data t) \<le> 2 ^ nat (cb (L1 c))"
    and inr1: "(unat addr div 2 ^ nat (cb (L1 c)) + 1) * 2 ^ nat (cb (L1 c)) \<le> length (ram_fp c)"
    and inr2: "(unat addr div 2 ^ nat (cb (L2 c)) + 1) * 2 ^ nat (cb (L2 c)) \<le> length (ram_fp c)"
  shows "coherent (L1 c') (ram_fp c') \<and> coherent (L2 c') (ram_fp c') \<and>
    agree_outside (ram_fp c) (ram_fp c') (unat addr) (length (data t)) \<and>
    cb (L1 c') = cb (L1 c) \<and> cb (L2 c') = cb (L2 c)"
proof -
  let ?db = "data t @ replicate (32 - length (data t)) 0" and ?n = "length (data t)"
  from inv1 have sh1: "shaped (L1 c)" by (simp add: cache_inv_def)
  from s show ?thesis
  proof (cases rule: access_store_cases)
    case (hit tg si off i l1' c2 r2 ram')
    note w = write_block_to_ram_agree [OF sh1 hit(1) hit(6) fit inr1]
    from w(1) have len: "length ram' = length (ram_fp c)" by (simp add: agree_outside_def)
    have l1: "coherent l1' ram'"
      by (rule store_line_coherent [OF inv1 hit(1,2) coh1 hit(4) w])
    have "coherent (L2 c2) ram'"
      by (rule store_l2_coherent [OF _ _ hit(5) _ w]) (use inv2 coh2 w(1) inr2 len in simp_all)
    moreover from store_l2_frame [OF hit(5)] have "L1 c2 = l1'" by simp
    moreover from store_l2_geom [OF hit(5)] have "cb (L2 c2) = cb (L2 c)" by simp
    moreover from store_line_finds [OF hit(4)] have "cb l1' = cb (L1 c)" by simp
    ultimately show ?thesis using l1 w(1) hit(7) by simp
  next
    case (miss tg si off v ram')
    note w = write_block_to_ram_agree [OF sh1 miss(1) miss(4) fit inr1]
    from w(1) have len: "length ram' = length (ram_fp c)" by (simp add: agree_outside_def)
    have l1: "coherent (L1 c) ram'"
      by (rule miss_coherent [OF inv1 miss(1,2) coh1 w(1) fit])
    have "coherent (L2 c') ram'"
      by (rule store_l2_coherent [OF _ _ miss(5) _ w])
         (use inv2 coh2 inr2 len in \<open>simp_all add: agree_outside_refl\<close>)
    moreover from store_l2_frame [OF miss(5)] have "L1 c' = L1 c" "ram_fp c' = ram'" by simp_all
    moreover from store_l2_geom [OF miss(5)] have "cb (L2 c') = cb (L2 c)" by simp
    ultimately show ?thesis using l1 w(1) by simp
  qed
qed

section \<open>Consistency of the lines with the backing store\<close>

lemma step_cases:
  assumes "step m t = Some m'"
  obtains (load) c r where "op t = LOAD"
      "access_load (data_ctx m) (address t) zero_result = Some (c, r)"
      "m' = (from_data_ctx (m\<lparr>m_load_res := zero_result, m_store_res := zero_result\<rparr>) c)
              \<lparr>m_load_res := r\<rparr>"
    | (inst) c r where "op t = INST"
      "access_load (inst_ctx m) (address t) zero_result = Some (c, r)"
      "m' = (from_inst_ctx (m\<lparr>m_load_res := zero_result, m_store_res := zero_result\<rparr>) c)
              \<lparr>m_load_res := r\<rparr>"
    | (store) c r where "op t = STORE"
      "access_store (data_ctx m) (address t) t zero_result = Some (c, r)"
      "m' = (from_data_ctx (m\<lparr>m_load_res := zero_result, m_store_res := zero_result\<rparr>) c)
              \<lparr>m_store_res := r\<rparr>"
    | (modify) c1 c lr sr where "op t = MODIFY"
      "access_load (data_ctx m) (address t) zero_result = Some (c1, lr)"
      "access_store c1 (address t) t zero_result = Some (c, sr)"
      "m' = (from_data_ctx (m\<lparr>m_load_res := zero_result, m_store_res := zero_result\<rparr>) c)
              \<lparr>m_load_res := lr, m_store_res := sr\<rparr>"
proof -
  have d: "data_ctx (m\<lparr>m_load_res := zero_result, m_store_res := zero_result\<rparr>) = data_ctx m"
    "inst_ctx (m\<lparr>m_load_res := zero_result, m_store_res := zero_result\<rparr>) = inst_ctx m"
    by (simp_all add: data_ctx_def inst_ctx_def)
  consider "op t = LOAD" | "op t = INST" | "op t = STORE" | "op t = MODIFY"
    by (cases "op t") auto
  then show ?thesis
  proof cases
    case 1
    with assms load show ?thesis
      by (auto simp: step_def Let_def d split: Option.bind_splits)
  next
    case 2
    with assms inst show ?thesis
      by (auto simp: step_def Let_def d split: Option.bind_splits)
  next
    case 3
    with assms store show ?thesis
      by (auto simp: step_def Let_def d split: Option.bind_splits)
  next
    case 4
    with assms obtain c lr sr where
      a: "access_modify (data_ctx m) (address t) t zero_result zero_result = Some (c, lr, sr)"
      and m': "m' = (from_data_ctx (m\<lparr>m_load_res := zero_result, m_store_res := zero_result\<rparr>) c)
              \<lparr>m_load_res := lr, m_store_res := sr\<rparr>"
      by (auto simp: step_def Let_def d split: Option.bind_splits)
    from a obtain c1 where "access_load (data_ctx m) (address t) zero_result = Some (c1, lr)"
      "access_store c1 (address t) t zero_result = Some (c, sr)"
      by (rule access_modify_SomeD)
    with 4 m' modify show ?thesis by blast
  qed
qed

lemma misses_L1I_D:
  assumes "misses_L1I m t"
  obtains tg si off v where
    "extract_address_parts (address t) (cs (m_L1I m)) (cb (m_L1I m)) = Some (tg, si, off)"
    "find_line (m_L1I m) si tg = Some (Miss v)"
  using assms unfolding misses_L1I_def
  by (auto split: option.splits found.splits)

lemma step_store_inv:
  assumes K: "store_inv b1 b2 N m" and fits: "op_fits b1 b2 N t" and s: "step m t = Some m'"
  shows "store_inv b1 b2 N m'"
    and "coherent (m_L1I m) (m_ram_fp m) \<Longrightarrow> (op t = STORE \<or> op t = MODIFY \<longrightarrow> misses_L1I m t)
      \<Longrightarrow> coherent (m_L1I m') (m_ram_fp m')"
proof -
  from K have mi: "machine_inv m" and N: "length (m_ram_fp m) = N"
    and g: "cb (m_L1D m) = b1" "cb (m_L1I m) = b1" "cb (m_L2 m) = b2"
    and co: "coherent (m_L1D m) (m_ram_fp m)" "coherent (m_L2 m) (m_ram_fp m)"
    by (simp_all add: store_inv_def)
  from mi have ci: "cache_inv (m_L1D m)" "cache_inv (m_L1I m)" "cache_inv (m_L2 m)"
    by (simp_all add: machine_inv_def)
  from fits have i1: "(unat (address t) div 2 ^ nat b1 + 1) * 2 ^ nat b1 \<le> N"
    and i2: "(unat (address t) div 2 ^ nat b2 + 1) * 2 ^ nat b2 \<le> N"
    and ft: "op t = STORE \<or> op t = MODIFY \<Longrightarrow>
      unat (address t) mod 2 ^ nat b1 + length (data t) \<le> 2 ^ nat b1"
    by (simp_all add: op_fits_def)
  have d: "L1 (data_ctx m) = m_L1D m" "L2 (data_ctx m) = m_L2 m" "ram_fp (data_ctx m) = m_ram_fp m"
    "L1 (inst_ctx m) = m_L1I m" "L2 (inst_ctx m) = m_L2 m" "ram_fp (inst_ctx m) = m_ram_fp m"
    by (simp_all add: data_ctx_def inst_ctx_def)
  from step_inv [OF mi s] have mi': "machine_inv m'" .
  have "store_inv b1 b2 N m' \<and>
    (coherent (m_L1I m) (m_ram_fp m) \<longrightarrow> (op t = STORE \<or> op t = MODIFY \<longrightarrow> misses_L1I m t)
      \<longrightarrow> coherent (m_L1I m') (m_ram_fp m'))"
    using s
  proof (cases rule: step_cases)
    case (load c r)
    from access_load_coherent [OF _ _ _ load(2)] ci co i1 i2 N g d
    have "coherent (L2 c) (ram_fp c) \<and> coherent (L1 c) (ram_fp c)" by simp
    with access_load_geom [OF load(2)] mi' N g d load(1) show ?thesis
      unfolding load(3) by (simp add: store_inv_def from_data_ctx_def)
  next
    case (inst c r)
    from access_load_coherent [OF _ _ _ inst(2)] ci co i1 i2 N g d
    have "coherent (L2 c) (ram_fp c) \<and> (coherent (m_L1I m) (m_ram_fp m) \<longrightarrow> coherent (L1 c) (ram_fp c))"
      by simp
    with access_load_geom [OF inst(2)] mi' N g d co inst(1) show ?thesis
      unfolding inst(3) by (simp add: store_inv_def from_inst_ctx_def)
  next
    case (store c r)
    from access_store_coherent [OF _ _ _ _ store(2)] ci co i1 i2 N g d ft store(1)
    have c: "coherent (L1 c) (ram_fp c)" "coherent (L2 c) (ram_fp c)"
      "agree_outside (m_ram_fp m) (ram_fp c) (unat (address t)) (length (data t))"
      "cb (L1 c) = b1" "cb (L2 c) = b2" by simp_all
    have "coherent (m_L1I m) (ram_fp c)" if "coherent (m_L1I m) (m_ram_fp m)" "misses_L1I m t"
    proof -
      from that(2) obtain tg si off v where
        e: "extract_address_parts (address t) (cs (m_L1I m)) (cb (m_L1I m)) = Some (tg, si, off)"
        and f: "find_line (m_L1I m) si tg = Some (Miss v)"
        by (rule misses_L1I_D)
      show ?thesis
        by (rule miss_coherent [OF ci(2) e f that(1) c(3)]) (use ft store(1) g in simp)
    qed
    moreover from c(3) N have "length (ram_fp c) = N" by (simp add: agree_outside_def)
    ultimately show ?thesis
      using c mi' g store(1) unfolding store(3) by (simp add: store_inv_def from_data_ctx_def)
  next
    case (modify c1 c lr sr)
    from access_load_coherent [OF _ _ _ modify(2)] ci co i1 i2 N g d
    have l: "coherent (L2 c1) (ram_fp c1)" "coherent (L1 c1) (ram_fp c1)" by simp_all
    from access_load_geom [OF modify(2)] g d
    have g1: "cb (L1 c1) = b1" "cb (L2 c1) = b2" "ram_fp c1 = m_ram_fp m" by simp_all
    from access_load_inv [OF _ _ modify(2)] ci d
    have ci1: "cache_inv (L1 c1)" "cache_inv (L2 c1)" by simp_all
    from access_store_coherent [OF ci1 l(2) l(1) modify(3)] i1 i2 N g1 ft modify(1)
    have c: "coherent (L1 c) (ram_fp c)" "coherent (L2 c) (ram_fp c)"
      "agree_outside (m_ram_fp m) (ram_fp c) (unat (address t)) (length (data t))"
      "cb (L1 c) = b1" "cb (L2 c) = b2" by simp_all
    have "coherent (m_L1I m) (ram_fp c)" if "coherent (m_L1I m) (m_ram_fp m)" "misses_L1I m t"
    proof -
      from that(2) obtain tg si off v where
        e: "extract_address_parts (address t) (cs (m_L1I m)) (cb (m_L1I m)) = Some (tg, si, off)"
        and f: "find_line (m_L1I m) si tg = Some (Miss v)"
        by (rule misses_L1I_D)
      show ?thesis
        by (rule miss_coherent [OF ci(2) e f that(1) c(3)]) (use ft modify(1) g in simp)
    qed
    moreover from c(3) N have "length (ram_fp c) = N" by (simp add: agree_outside_def)
    ultimately show ?thesis
      using c mi' g modify(1) unfolding modify(4) by (simp add: store_inv_def from_data_ctx_def)
  qed
  then show "store_inv b1 b2 N m'"
    and "coherent (m_L1I m) (m_ram_fp m) \<Longrightarrow> (op t = STORE \<or> op t = MODIFY \<longrightarrow> misses_L1I m t)
      \<Longrightarrow> coherent (m_L1I m') (m_ram_fp m')"
    by blast+
qed

lemma run_store_inv:
  assumes "store_inv b1 b2 N m" "\<forall>t \<in> set ts. op_fits b1 b2 N t" "run m ts = Some m'"
  shows "store_inv b1 b2 N m' \<and>
    (coherent (m_L1I m) (m_ram_fp m) \<longrightarrow> stores_miss_L1I m ts \<longrightarrow> coherent (m_L1I m') (m_ram_fp m'))"
  using assms
proof (induction ts arbitrary: m)
  case Nil
  then show ?case by simp
next
  case (Cons t ts)
  from Cons.prems(3) obtain m1 where s: "step m t = Some m1" and r: "run m1 ts = Some m'"
    by (auto split: option.splits)
  from Cons.prems(2) have f: "op_fits b1 b2 N t" and fs: "\<forall>t \<in> set ts. op_fits b1 b2 N t" by simp_all
  note st = step_store_inv [OF Cons.prems(1) f s]
  from Cons.IH [OF st(1) fs r] st(2) s show ?case by auto
qed

lemma coherent_fresh:
  assumes "create_cache junk s E b = Some c"
  shows "coherent c ram" and "cb c = b"
proof -
  from assms have c: "c = \<lparr>sets = map (\<lambda>i. \<lparr>lines = map (\<lambda>j. \<lparr>valid = 0, tag = 0, fifo_counter = 0,
                                              block = map (junk i j) [0 ..< 2 ^ nat b]\<rparr>)
                                      [0 ..< nat E]\<rparr>)
                    [0 ..< 2 ^ nat s],
         cs = s, cE = E, cb = b,
         cS = push_bit (nat s) 1, cB = push_bit (nat b) 1,
         fifo_time = 0\<rparr>"
    by (auto simp: create_cache_def split: if_splits)
  show "coherent c ram" unfolding c coherent_def line_coherent_def by auto
  show "cb c = b" unfolding c by simp
qed

lemma main_init_store_inv:
  assumes "main_init jD jI j2 L1s L1E L1b L2s L2E L2b ram = Some m"
  shows "store_inv L1b L2b (length ram) m" and "coherent (m_L1I m) (m_ram_fp m)"
proof -
  from assms obtain l1d l1i l2 where
    c: "create_cache jD L1s L1E L1b = Some l1d" "create_cache jI L1s L1E L1b = Some l1i"
    "create_cache j2 L2s L2E L2b = Some l2"
    and m: "m_L1D m = l1d" "m_L1I m = l1i" "m_L2 m = l2" "m_ram_fp m = ram"
    by (auto simp: main_init_def split: if_splits Option.bind_splits)
  from coherent_fresh [OF c(1)] coherent_fresh [OF c(2)] coherent_fresh [OF c(3)]
    main_init_inv [OF assms] m
  show "store_inv L1b L2b (length ram) m" and "coherent (m_L1I m) (m_ram_fp m)"
    by (simp_all add: store_inv_def)
qed

text \<open>
  Claim C9, as the code has it. Take a trace that the replay runs to its end from the
  caches \<open>main\<close> creates, in which the L1 block and the L2 block of every address lie
  within the backing store and the bytes of every STORE and MODIFY end within the L1
  block of their address. Then every valid line of L1D and of L2 holds the bytes the
  backing store has at the addresses the line covers. The same holds of every valid
  line of L1I when no STORE or MODIFY of the trace addresses a block that L1I holds at
  that moment.
\<close>

theorem lines_match_backing_store:
  assumes "main_init jD jI j2 L1s L1E L1b L2s L2E L2b ram = Some m0"
    and "\<forall>t \<in> set ts. op_fits L1b L2b (length ram) t"
    and "run m0 ts = Some m"
  shows "coherent (m_L1D m) (m_ram_fp m) \<and> coherent (m_L2 m) (m_ram_fp m) \<and>
    (stores_miss_L1I m0 ts \<longrightarrow> coherent (m_L1I m) (m_ram_fp m))"
  using run_store_inv [OF main_init_store_inv(1) [OF assms(1)] assms(2,3)]
    main_init_store_inv(2) [OF assms(1)]
  by (simp add: store_inv_def)

theorem lines_match_backing_store_witness:
  "(\<exists>m. run demo_machine demo_trace = Some m \<and>
      coherent (m_L1D m) (m_ram_fp m) \<and> coherent (m_L2 m) (m_ram_fp m) \<and>
      coherent (m_L1I m) (m_ram_fp m)) \<and>
   stores_miss_L1I demo_machine demo_trace \<and>
   list_all (op_fits 2 3 (length ram32)) demo_trace"
proof -
  from run_demo_trace obtain m where r: "run demo_machine demo_trace = Some m" ..
  have f: "list_all (op_fits 2 3 (length ram32)) demo_trace" by code_simp
  then have f': "\<forall>t \<in> set demo_trace. op_fits 2 3 (length ram32) t" by (simp add: list_all_iff)
  have a: "stores_miss_L1I demo_machine demo_trace" by code_simp
  from lines_match_backing_store [OF demo_machine_init f' r] a r f show ?thesis by blast
qed

text \<open>
  A store does not reach the instruction cache: after an instruction fetch of address 4
  and a store of \<open>FF\<close> to address 4, the line of L1I still holds the old byte, so not
  every valid line of every cache agrees with the backing store.
\<close>

theorem instruction_line_goes_stale:
  "map_option all_lines_coherent (run demo_machine [inst_op 4, store_op 4 [0xFF]]) = Some False"
  by code_simp

section \<open>The replay runs to its end\<close>

lemma extract_total:
  "geometry_ok c \<Longrightarrow> \<exists>tg si off. extract_address_parts a (cs c) (cb c) = Some (tg, si, off)"
  by (simp add: geometry_ok_def extract_address_parts_def Let_def)

lemma find_line_total:
  assumes sh: "shaped c" and g: "geometry_ok c"
    and e: "extract_address_parts a (cs c) (cb c) = Some (tg, si, off)"
  shows "\<exists>r. find_line c si tg = Some r"
proof -
  note ge = geometry [OF sh e]
  from sh ge(2) have l: "length (lines (sets c ! unat si)) = nat (cE c)" by (simp add: shaped_def)
  with g have "cE c = int (length (lines (sets c ! unat si)))" "lines (sets c ! unat si) \<noteq> []"
    by (auto simp: geometry_ok_def)
  from find_line_spec [OF ge(2) refl this, of tg] show ?thesis by blast
qed

lemma line_at_hit:
  assumes "shaped c" "find_line c si tg = Some (Hit i)"
  shows "line_at c si i = Some (lines (sets c ! unat si) ! nat i)"
  using find_line_shaped(1) [OF assms] hit_line(1,2) [OF assms]
  by (auto simp: line_at_def Let_def)

lemma line_at_miss:
  assumes "shaped c" "find_line c si tg = Some (Miss v)"
  shows "line_at c si v = Some (lines (sets c ! unat si) ! nat v)"
  using find_line_shaped(1,4) [OF assms]
  by (auto simp: line_at_def Let_def resolved_def)

lemma block_length:
  assumes "shaped c" "line_at c si i = Some ln"
  shows "length (block ln) = unat (cB c)"
proof -
  from line_at_SomeD [OF assms(2)]
  have "unat si < length (sets c)" "ln \<in> set (lines (sets c ! unat si))" by auto
  with assms(1) show ?thesis by (simp add: shaped_def)
qed

lemma fill_line_total:
  assumes sh: "shaped c" and f: "find_line c si tg = Some (Miss v)"
  shows "\<exists>c'. fill_line c si v tg ram a = Some c'"
proof -
  note l = line_at_miss [OF sh f]
  from block_length [OF sh l]
  have "\<exists>blk. read_block_from_ram ram a (block (lines (sets c ! unat si) ! nat v)) (cB c) = Some blk"
    by (simp add: read_block_from_ram_def fread_buf_def Let_def)
  with l show ?thesis by (auto simp: fill_line_def)
qed

lemma store_line_total:
  assumes sh: "shaped c" and l: "line_at c si i = Some ln"
    and fit: "unat off + n \<le> unat (cB c)" and n: "n \<le> length db"
  shows "\<exists>c'. store_line c si i off db n = Some c'"
  using block_length [OF sh l] l fit n by (simp add: store_line_def memcpy_def)

lemma same_geom_refl [simp]: "same_geom c c"
  by (simp add: same_geom_def)

lemma fill_line_same_geom: "fill_line c si v tg ram a = Some c' \<Longrightarrow> same_geom c c'"
  by (erule fill_line_SomeD) (simp add: same_geom_def)

lemma store_line_same_geom: "store_line c si i off db n = Some c' \<Longrightarrow> same_geom c c'"
  by (erule store_line_SomeD) (simp add: same_geom_def)

lemma same_geom_trans: "same_geom c c1 \<Longrightarrow> same_geom c1 c' \<Longrightarrow> same_geom c c'"
  by (simp add: same_geom_def)

lemma geometry_ok_same: "same_geom c c' \<Longrightarrow> geometry_ok c \<Longrightarrow> geometry_ok c'"
  by (simp add: same_geom_def geometry_ok_def)

lemma access_load_same_geom:
  assumes "access_load c a r = Some (c', r')"
  shows "same_geom (L1 c) (L1 c') \<and> same_geom (L2 c) (L2 c')"
  using assms
proof (cases rule: access_load_cases)
  case (hit tg si off i)
  then show ?thesis by simp
next
  case (miss_hit tg si off v tg2 si2 off2 i2 old l1')
  with fill_line_same_geom [OF miss_hit(6)] show ?thesis by simp
next
  case (miss_miss tg si off v tg2 si2 off2 v2 old2 l2' old l1')
  with fill_line_same_geom [OF miss_miss(6)] fill_line_same_geom [OF miss_miss(8)]
  show ?thesis by simp
qed

lemma store_l2_same_geom:
  assumes "store_l2 c a db n r = Some (c', r')"
  shows "same_geom (L2 c) (L2 c')"
  using assms
proof (cases rule: store_l2_cases)
  case (hit tg si off i l2')
  with store_line_same_geom [OF hit(3)] show ?thesis by simp
next
  case (miss tg si off v old l2' l2'')
  with same_geom_trans [OF fill_line_same_geom [OF miss(4)] store_line_same_geom [OF miss(5)]]
  show ?thesis by simp
qed

lemma access_store_same_geom:
  assumes "access_store c a t r = Some (c', r')"
  shows "same_geom (L1 c) (L1 c') \<and> same_geom (L2 c) (L2 c')"
  using assms
proof (cases rule: access_store_cases)
  case (hit tg si off i l1' c2 r2 ram')
  from store_l2_frame [OF hit(5)] store_l2_same_geom [OF hit(5)] store_line_same_geom [OF hit(4)] hit(7)
  show ?thesis by simp
next
  case (miss tg si off v ram')
  from store_l2_frame [OF miss(5)] store_l2_same_geom [OF miss(5)] show ?thesis by simp
qed

lemma access_load_total:
  assumes i1: "cache_inv (L1 c)" and i2: "cache_inv (L2 c)"
    and g1: "geometry_ok (L1 c)" and g2: "geometry_ok (L2 c)"
  shows "\<exists>c' r'. access_load c a r = Some (c', r')"
proof -
  from i1 i2 have sh: "shaped (L1 c)" "shaped (L2 c)" by (simp_all add: cache_inv_def)
  from extract_total [OF g1] obtain tg si off where
    e1: "extract_address_parts a (cs (L1 c)) (cb (L1 c)) = Some (tg, si, off)" by blast
  from find_line_total [OF sh(1) g1 e1] obtain f1 where f1: "find_line (L1 c) si tg = Some f1" ..
  show ?thesis
  proof (cases f1)
    case (Hit i)
    with e1 f1 show ?thesis by (simp add: access_load_def)
  next
    case (Miss v)
    from extract_total [OF g2] obtain tg2 si2 off2 where
      e2: "extract_address_parts a (cs (L2 c)) (cb (L2 c)) = Some (tg2, si2, off2)" by blast
    from find_line_total [OF sh(2) g2 e2] obtain f2 where f2: "find_line (L2 c) si2 tg2 = Some f2" ..
    note l1 = line_at_miss [OF sh(1) f1 [unfolded Miss]]
    from fill_line_total [OF sh(1) f1 [unfolded Miss], of "ram_fp c" a]
    obtain l1' where fl1: "fill_line (L1 c) si v tg (ram_fp c) a = Some l1'" ..
    show ?thesis
    proof (cases f2)
      case (Hit i2)
      with e1 f1 Miss e2 f2 l1 fl1 show ?thesis by (auto simp: access_load_def Let_def)
    next
      case m2: (Miss v2)
      note l2 = line_at_miss [OF sh(2) f2 [unfolded m2]]
      from fill_line_total [OF sh(2) f2 [unfolded m2], of "ram_fp c" a]
      obtain l2' where fl2: "fill_line (L2 c) si2 v2 tg2 (ram_fp c) a = Some l2'" ..
      from e1 f1 Miss e2 f2 m2 l1 fl1 l2 fl2 show ?thesis
        by (auto simp: access_load_def Let_def)
    qed
  qed
qed


lemma store_l2_total:
  assumes i2: "cache_inv (L2 c)" and g2: "geometry_ok (L2 c)"
    and fit: "unat a mod 2 ^ nat (cb (L2 c)) + n \<le> 2 ^ nat (cb (L2 c))" and n: "n \<le> length db"
  shows "\<exists>c' r'. store_l2 c a db n r = Some (c', r')"
proof -
  from i2 have sh: "shaped (L2 c)" by (simp add: cache_inv_def)
  from extract_total [OF g2] obtain tg si off where
    e: "extract_address_parts a (cs (L2 c)) (cb (L2 c)) = Some (tg, si, off)" by blast
  note ge = geometry [OF sh e]
  from find_line_total [OF sh g2 e] obtain f2 where f: "find_line (L2 c) si tg = Some f2" ..
  have fit': "unat (a AND (cB (L2 c) - 1)) + n \<le> unat (cB (L2 c))"
    unfolding ge(1) ge(4) by (rule fit)
  show ?thesis
  proof (cases f2)
    case (Hit i)
    note l = line_at_hit [OF sh f [unfolded Hit]]
    from store_line_total [OF sh l fit' n] obtain l2' where
      "store_line (L2 c) si i (a AND (cB (L2 c) - 1)) db n = Some l2'" ..
    with e f Hit show ?thesis by (simp add: store_l2_def Let_def)
  next
    case (Miss v)
    note l = line_at_miss [OF sh f [unfolded Miss]]
    from fill_line_total [OF sh f [unfolded Miss], of "ram_fp c" a]
    obtain l2' where fl: "fill_line (L2 c) si v tg (ram_fp c) a = Some l2'" ..
    from fill_line_inv [OF i2 f [unfolded Miss] fl] have sh': "shaped l2'" by (simp add: cache_inv_def)
    note l' = line_at_hit [OF sh' find_line_after_fill [OF i2 f [unfolded Miss] fl]]
    from fill_line_finds [OF fl] fit' have "unat (a AND (cB (L2 c) - 1)) + n \<le> unat (cB l2')" by simp
    from store_line_total [OF sh' l' this n] obtain l2'' where
      "store_line l2' si v (a AND (cB (L2 c) - 1)) db n = Some l2''" ..
    with e f Miss l fl show ?thesis by (auto simp: store_l2_def Let_def)
  qed
qed

lemma access_store_total:
  assumes i1: "cache_inv (L1 c)" and i2: "cache_inv (L2 c)"
    and g1: "geometry_ok (L1 c)" and g2: "geometry_ok (L2 c)" and b64: "cb (L1 c) \<le> 6"
    and n: "length (data t) \<le> 32"
    and fit1: "unat a mod 2 ^ nat (cb (L1 c)) + length (data t) \<le> 2 ^ nat (cb (L1 c))"
    and fit2: "unat a mod 2 ^ nat (cb (L2 c)) + length (data t) \<le> 2 ^ nat (cb (L2 c))"
  shows "\<exists>c' r'. access_store c a t r = Some (c', r')"
proof -
  let ?db = "data t @ replicate (32 - length (data t)) 0" and ?n = "length (data t)"
  from i1 have sh: "shaped (L1 c)" by (simp add: cache_inv_def)
  from extract_total [OF g1] obtain tg si off where
    e: "extract_address_parts a (cs (L1 c)) (cb (L1 c)) = Some (tg, si, off)" by blast
  note ge = geometry [OF sh e]
  from find_line_total [OF sh g1 e] obtain f1 where f: "find_line (L1 c) si tg = Some f1" ..
  have nd: "?n \<le> length ?db" by simp
  have fit': "unat (a AND (cB (L1 c) - 1)) + ?n \<le> unat (cB (L1 c))"
    unfolding ge(1) ge(4) by (rule fit1)
  have B: "unat (cB (L1 c)) \<le> 64"
  proof -
    from g1 b64 have "nat (cb (L1 c)) \<le> 6" by simp
    then have "(2::nat) ^ nat (cb (L1 c)) \<le> 2 ^ 6" by (rule power_increasing) simp
    then show ?thesis unfolding ge(1) by simp
  qed
  have A: "unat a = (unat a div 2 ^ nat (cb (L1 c))) * 2 ^ nat (cb (L1 c)) + unat a mod 2 ^ nat (cb (L1 c))"
    by (rule div_mult_mod_eq [symmetric])
  have wf: "unat a - unat (a AND NOT (cB (L1 c) - 1)) + ?n \<le> unat (cB (L1 c))"
    unfolding ge(1) ge(3) using fit1 A by linarith
  have w: "\<exists>ram'. write_block_to_ram ram a ?db ?n (cB (L1 c)) = Some ram'" for ram
    by (rule write_block_to_ram_total [OF B wf nd])
  show ?thesis
  proof (cases f1)
    case (Hit i)
    note l = line_at_hit [OF sh f [unfolded Hit]]
    from store_line_total [OF sh l fit' nd] obtain l1' where
      st: "store_line (L1 c) si i (a AND (cB (L1 c) - 1)) ?db ?n = Some l1'" ..
    let ?c1 = "c\<lparr>L1_hit := L1_hit c + 1, L1 := l1'\<rparr>"
    from store_l2_total [of ?c1 a ?n ?db "r\<lparr>set_l1 := sint si, l1_hit := 1\<rparr>"] i2 g2 fit2
    obtain c2 r2 where s2: "store_l2 ?c1 a ?db ?n (r\<lparr>set_l1 := sint si, l1_hit := 1\<rparr>) = Some (c2, r2)"
      by auto
    from store_l2_frame [OF s2] store_line_finds [OF st]
    have "cB (L1 c2) = cB (L1 c)" by simp
    with w [of "ram_fp c2"] obtain ram' where
      "write_block_to_ram (ram_fp c2) a ?db ?n (cB (L1 c2)) = Some ram'" by auto
    with e f Hit n st s2 show ?thesis by (simp add: access_store_def Let_def)
  next
    case (Miss v)
    from w [of "ram_fp c"] obtain ram' where
      wr: "write_block_to_ram (ram_fp c) a ?db ?n (cB (L1 c)) = Some ram'" ..
    let ?c1 = "c\<lparr>L1_miss := L1_miss c + 1, ram_fp := ram'\<rparr>"
    from store_l2_total [of ?c1 a ?n ?db "r\<lparr>set_l1 := sint si, l1_miss := 1, wrote_to_ram := 1\<rparr>"]
      i2 g2 fit2
    obtain c2 r2 where
      "store_l2 ?c1 a ?db ?n (r\<lparr>set_l1 := sint si, l1_miss := 1, wrote_to_ram := 1\<rparr>) = Some (c2, r2)"
      by auto
    with e f Miss n wr show ?thesis by (simp add: access_store_def Let_def)
  qed
qed


lemma step_total:
  assumes ok: "replay_ok b1 b2 m" and sf: "op_safe b1 b2 t"
  shows "\<exists>m'. step m t = Some m' \<and> replay_ok b1 b2 m'"
proof -
  from ok have mi: "machine_inv m"
    and g: "geometry_ok (m_L1D m)" "geometry_ok (m_L1I m)" "geometry_ok (m_L2 m)"
    and b: "cb (m_L1D m) = b1" "cb (m_L2 m) = b2" "b1 \<le> 6"
    by (simp_all add: replay_ok_def)
  from mi have ci: "cache_inv (m_L1D m)" "cache_inv (m_L1I m)" "cache_inv (m_L2 m)"
    by (simp_all add: machine_inv_def)
  let ?m = "m\<lparr>m_load_res := zero_result, m_store_res := zero_result\<rparr>"
  have d: "L1 (data_ctx ?m) = m_L1D m" "L2 (data_ctx ?m) = m_L2 m"
    "L1 (inst_ctx ?m) = m_L1I m" "L2 (inst_ctx ?m) = m_L2 m"
    by (simp_all add: data_ctx_def inst_ctx_def)
  have keep: "replay_ok b1 b2 m'" if "step m t = Some m'" for m'
  proof -
    from step_inv [OF mi that] have mi': "machine_inv m'" .
    have "same_geom (m_L1D m) (m_L1D m') \<and> same_geom (m_L1I m) (m_L1I m') \<and>
      same_geom (m_L2 m) (m_L2 m')"
      using that
    proof (cases rule: step_cases)
      case (load c r)
      from access_load_same_geom [OF load(2)] show ?thesis
        unfolding load(3) by (simp add: from_data_ctx_def data_ctx_def)
    next
      case (inst c r)
      from access_load_same_geom [OF inst(2)] show ?thesis
        unfolding inst(3) by (simp add: from_inst_ctx_def inst_ctx_def)
    next
      case (store c r)
      from access_store_same_geom [OF store(2)] show ?thesis
        unfolding store(3) by (simp add: from_data_ctx_def data_ctx_def)
    next
      case (modify c1 c lr sr)
      from access_load_same_geom [OF modify(2)] access_store_same_geom [OF modify(3)]
      have "same_geom (m_L1D m) (L1 c) \<and> same_geom (m_L2 m) (L2 c)"
        by (auto simp: data_ctx_def intro: same_geom_trans)
      then show ?thesis
        unfolding modify(4) by (simp add: from_data_ctx_def)
    qed
    with mi' g b show ?thesis
      by (auto simp: replay_ok_def same_geom_def intro: geometry_ok_same)
  qed
  consider "op t = LOAD" | "op t = INST" | "op t = STORE" | "op t = MODIFY"
    by (cases "op t") auto
  then have "\<exists>m'. step m t = Some m'"
  proof cases
    case 1
    from access_load_total [of "data_ctx ?m" "address t" zero_result] ci g d
    obtain c r where "access_load (data_ctx ?m) (address t) zero_result = Some (c, r)" by auto
    with 1 show ?thesis by (simp add: step_def)
  next
    case 2
    from access_load_total [of "inst_ctx ?m" "address t" zero_result] ci g d
    obtain c r where "access_load (inst_ctx ?m) (address t) zero_result = Some (c, r)" by auto
    with 2 show ?thesis by (simp add: step_def)
  next
    case 3
    with sf b have f: "length (data t) \<le> 32"
      "unat (address t) mod 2 ^ nat (cb (m_L1D m)) + length (data t) \<le> 2 ^ nat (cb (m_L1D m))"
      "unat (address t) mod 2 ^ nat (cb (m_L2 m)) + length (data t) \<le> 2 ^ nat (cb (m_L2 m))"
      by (simp_all add: op_safe_def)
    from access_store_total [of "data_ctx ?m" t "address t" zero_result] ci g d b f
    obtain c r where "access_store (data_ctx ?m) (address t) t zero_result = Some (c, r)" by auto
    with 3 show ?thesis by (simp add: step_def)
  next
    case 4
    with sf b have f: "length (data t) \<le> 32"
      "unat (address t) mod 2 ^ nat (cb (m_L1D m)) + length (data t) \<le> 2 ^ nat (cb (m_L1D m))"
      "unat (address t) mod 2 ^ nat (cb (m_L2 m)) + length (data t) \<le> 2 ^ nat (cb (m_L2 m))"
      by (simp_all add: op_safe_def)
    from access_load_total [of "data_ctx ?m" "address t" zero_result] ci g d
    obtain c1 lr where l: "access_load (data_ctx ?m) (address t) zero_result = Some (c1, lr)" by auto
    from access_load_inv [OF _ _ l] ci d have ci1: "cache_inv (L1 c1)" "cache_inv (L2 c1)" by simp_all
    from access_load_same_geom [OF l] d
    have sg: "same_geom (m_L1D m) (L1 c1)" "same_geom (m_L2 m) (L2 c1)" by simp_all
    then have g1: "geometry_ok (L1 c1)" "geometry_ok (L2 c1)"
      and b1: "cb (L1 c1) = cb (m_L1D m)" "cb (L2 c1) = cb (m_L2 m)"
      using g by (auto simp: same_geom_def intro: geometry_ok_same)
    from access_store_total [OF ci1 g1, of t "address t" zero_result] b b1 f
    obtain c sr where "access_store c1 (address t) t zero_result = Some (c, sr)" by auto
    with 4 l show ?thesis by (simp add: step_def access_modify_def)
  qed
  with keep show ?thesis by blast
qed

lemma run_total:
  assumes "replay_ok b1 b2 m" "\<forall>t \<in> set ts. op_safe b1 b2 t"
  shows "\<exists>m'. run m ts = Some m'"
  using assms
proof (induction ts arbitrary: m)
  case Nil
  then show ?case by simp
next
  case (Cons t ts)
  from step_total [OF Cons.prems(1), of t] Cons.prems(2)
  obtain m1 where "step m t = Some m1" "replay_ok b1 b2 m1" by auto
  with Cons.IH [of m1] Cons.prems(2) show ?case by simp
qed

text \<open>
  The replay runs every trace to its end (no access leaves an array and no shift is
  undefined) when the geometry is in range, the L1 block size is at most 64 and the
  bytes of every store fit its blocks.
\<close>

lemma replay_runs:
  assumes init: "main_init jD jI j2 L1s L1E L1b L2s L2E L2b ram = Some m0"
    and E: "0 < L1E" "0 < L2E" and sb: "L1b + L1s < 32" "L2b + L2s < 32" and b: "L1b \<le> 6"
    and safe: "\<forall>t \<in> set ts. op_safe L1b L2b t"
  shows "\<exists>m. run m0 ts = Some m"
proof -
  from init obtain l1d l1i l2 where
    c: "create_cache jD L1s L1E L1b = Some l1d" "create_cache jI L1s L1E L1b = Some l1i"
    "create_cache j2 L2s L2E L2b = Some l2"
    and m: "m_L1D m0 = l1d" "m_L1I m0 = l1i" "m_L2 m0 = l2"
    by (auto simp: main_init_def split: if_splits Option.bind_splits)
  have g: "geometry_ok x \<and> cb x = bb"
    if "create_cache j s e bb = Some x" "0 < e" "bb + s < 32" for j s e bb x
    using that by (auto simp: create_cache_def geometry_ok_def split: if_splits)
  from g [OF c(1) E(1) sb(1)] g [OF c(2) E(1) sb(1)] g [OF c(3) E(2) sb(2)] m b
    main_init_inv [OF init]
  have "replay_ok L1b L2b m0" by (simp add: replay_ok_def)
  from run_total [OF this safe] show ?thesis .
qed

end
